theory Spec2Isabelle
  imports Complex_Main "HOL-Library.Word"
begin

section \<open>The photo editor of PhotoEditorModal.tsx\<close>

text \<open>
  The editor is a React component around one canvas. Its pixel data is an \<open>ImageData\<close>:
  a width, a height and a \<open>Uint8ClampedArray\<close> of RGBA bytes in row-major order, the
  pixel \<open>(x, y)\<close> starting at byte \<open>(y * width + x) * 4\<close>.
\<close>

type_synonym byte = "8 word"

record ImageData =
  width :: nat
  height :: nat
  data :: "byte list"

text \<open>
  Reading a typed array outside its range gives \<open>undefined\<close> in JavaScript, here
  \<open>None\<close>. The source reads \<open>data[startIdx]\<close> before any bounds check, so the read
  is modelled with its failure.
\<close>

definition rd :: "byte list \<Rightarrow> int \<Rightarrow> byte option" where
  "rd d i = (if 0 \<le> i \<and> i < int (length d) then Some (d ! nat i) else None)"

text \<open>
  \<open>matches\<close> (lines 121-131) compares the three colour channels with the target colour,
  each by its absolute difference, and asks for a positive alpha. A comparison with
  \<open>undefined\<close> is a comparison with \<open>NaN\<close> and fails. The tolerance comes from a slider
  with minimum 5, so it is a natural number.
\<close>

definition absWithin :: "byte option \<Rightarrow> byte option \<Rightarrow> nat \<Rightarrow> bool" where
  "absWithin a t tol =
     (case a of None \<Rightarrow> False
      | Some r \<Rightarrow> (case t of None \<Rightarrow> False
                   | Some tr \<Rightarrow> \<bar>uint r - uint tr\<bar> \<le> int tol))"

definition positive :: "byte option \<Rightarrow> bool" where
  "positive a = (case a of None \<Rightarrow> False | Some v \<Rightarrow> 0 < uint v)"

definition matches ::
  "byte list \<Rightarrow> byte option \<times> byte option \<times> byte option \<Rightarrow> nat \<Rightarrow> int \<Rightarrow> bool" where
  "matches d target tol idx =
     (case target of (targetR, targetG, targetB) \<Rightarrow>
        absWithin (rd d idx) targetR tol \<and>
        absWithin (rd d (idx + 1)) targetG tol \<and>
        absWithin (rd d (idx + 2)) targetB tol \<and>
        positive (rd d (idx + 3)))"

text \<open>
  The work list loop of \<open>floodFill\<close> (lines 133-151). The JavaScript array holds the
  coordinates flat, pushed and popped two at a time; the model keeps each pair as one
  entry, the head of the list being the top of the stack. \<open>visited\<close> is the
  \<open>Uint8Array\<close>: reading it out of range is falsy, writing it out of range does nothing.
  The last argument counts the iterations of the loop and has no influence on the other
  results.
\<close>

definition isSet :: "bool list \<Rightarrow> int \<Rightarrow> bool" where
  "isSet visited pos = (0 \<le> pos \<and> pos < int (length visited) \<and> visited ! nat pos)"

function floodLoop ::
  "nat \<Rightarrow> nat \<Rightarrow> nat \<Rightarrow> byte option \<times> byte option \<times> byte option \<Rightarrow>
   byte list \<Rightarrow> bool list \<Rightarrow> (int \<times> int) list \<Rightarrow> nat \<Rightarrow> byte list \<times> bool list \<times> nat" where
  "floodLoop w h tol target d visited [] n = (d, visited, n)"
| "floodLoop w h tol target d visited ((x, y) # stack) n =
     (let pos = y * int w + x in
      if x < 0 \<or> x \<ge> int w \<or> y < 0 \<or> y \<ge> int h then
        floodLoop w h tol target d visited stack (Suc n)
      else if isSet visited pos then
        floodLoop w h tol target d visited stack (Suc n)
      else
        let idx = pos * 4 in
        if \<not> matches d target tol idx then
          floodLoop w h tol target d visited stack (Suc n)
        else
          floodLoop w h tol target (d[nat (idx + 3) := 0]) (visited[nat pos := True])
            ((x, y - 1) # (x, y + 1) # (x - 1, y) # (x + 1, y) # stack) (Suc n))"
  by pat_completeness auto
termination
proof (relation "measure (\<lambda>(w, h, tol, target, d, visited, stack, n).
          4 * length (filter (\<lambda>b. b \<noteq> 0) d) + length stack)")
  have drop: "length (filter (\<lambda>b. b \<noteq> 0) (d[i := 0])) < length (filter (\<lambda>b. b \<noteq> 0) d)"
    if "i < length d" "d ! i \<noteq> 0" for d :: "byte list" and i
    using that
  proof (induction d arbitrary: i)
    case Nil
    then show ?case by simp
  next
    case (Cons a d)
    then show ?case by (cases i) auto
  qed
  fix w h tol :: nat and target :: "byte option \<times> byte option \<times> byte option"
    and d :: "byte list" and visited :: "bool list" and x y :: int
    and stack :: "(int \<times> int) list" and n :: nat and pos idx :: int
  assume pos: "pos = y * int w + x" and idx: "idx = pos * 4"
    and m: "\<not> \<not> matches d target tol idx"
  from m have "positive (rd d (idx + 3))"
    by (simp add: matches_def split: prod.splits)
  then have "nat (idx + 3) < length d" "d ! nat (idx + 3) \<noteq> 0"
    by (auto simp: positive_def rd_def split: if_splits option.splits)
  from drop[OF this]
  show "((w, h, tol, target, d[nat (idx + 3) := 0], visited[nat pos := True],
          (x, y - 1) # (x, y + 1) # (x - 1, y) # (x + 1, y) # stack, Suc n),
         (w, h, tol, target, d, visited, (x, y) # stack, n))
        \<in> measure (\<lambda>(w, h, tol, target, d, visited, stack, n).
          4 * length (filter (\<lambda>b. b \<noteq> 0) d) + length stack)"
    by simp
qed auto

text \<open>
  The part of \<open>floodFill\<close> after its early return (lines 110-113 and 117-151): the
  target colour is read at the seed's byte offset, and the loop starts with a fresh
  \<open>visited\<close> array and the seed on the stack.
\<close>

definition floodFillData ::
  "nat \<Rightarrow> nat \<Rightarrow> nat \<Rightarrow> byte list \<Rightarrow> int \<Rightarrow> int \<Rightarrow> byte list" where
  "floodFillData w h tol d startX startY =
     (let startIdx = (startY * int w + startX) * 4;
          targetR = rd d startIdx;
          targetG = rd d (startIdx + 1);
          targetB = rd d (startIdx + 2)
      in fst (floodLoop w h tol (targetR, targetG, targetB) d
                (replicate (w * h) False) [(startX, startY)] 0))"

text \<open>
  The state of the component: the React state variables of lines 25-30 and the canvas
  behind \<open>canvasRef\<close>, which is absent while the dialog is not mounted. An image object
  is compared by identity in React's dependency lists; \<open>objId\<close> stands for that identity.
  The \<open>canvas\<close> field is the bitmap of the canvas: its width, its height and the bytes
  that \<open>getImageData\<close> reads from it, none when a side is 0. \<open>getContext\<close> is taken
  to succeed.
\<close>

record HTMLImage =
  objId :: nat
  imgWidth :: nat
  imgHeight :: nat

record editor =
  rotation :: int
  scale :: nat
  bgRemoveMode :: bool
  tolerance :: nat
  history :: "ImageData list"
  originalImage :: "HTMLImage option"
  canvas :: "ImageData option"

text \<open>
  The canvas keeps its colours premultiplied by alpha. A pixel that \<open>putImageData\<close>
  makes transparent (alpha 0 where the canvas shows another alpha) is therefore read back
  as 0, 0, 0, 0, whatever colour bytes were put. A pixel that is put with the bytes that
  were read from the canvas keeps them: \<open>floodFill\<close> puts back what it has read,
  changed in nothing but alpha bytes, which it sets to 0. \<open>shown\<close> is the bitmap that
  the canvas holds before the call.
\<close>

definition madeTransparent :: "byte list \<Rightarrow> byte list \<Rightarrow> nat \<Rightarrow> bool" where
  "madeTransparent shown d q =
     (rd d (int (4 * q + 3)) = Some 0 \<and> rd shown (int (4 * q + 3)) \<noteq> Some 0)"

definition putImageData :: "ImageData \<Rightarrow> ImageData \<Rightarrow> ImageData" where
  "putImageData shown imageData =
     imageData\<lparr>data :=
       map (\<lambda>i. if madeTransparent (data shown) (data imageData) (i div 4) then 0
                else data imageData ! i)
         [0..<length (data imageData)]\<rparr>"

text \<open>
  \<open>floodFill\<close> (lines 95-154). The snapshot \<open>prevData\<close> is taken from the canvas before
  the fill and appended to the history first; the test for a transparent seed comes
  after it. The handler runs on a click on the canvas, and a canvas with a zero side
  has no point to click (in a session the canvas has no zero side once an image is
  loaded, or the effect has thrown): \<open>getImageData\<close> of lines 101 and 107 is taken to
  succeed.
  \<open>handleCanvasClick\<close> (lines 156-168) receives the pointer position already mapped to
  buffer coordinates.
\<close>

definition floodFill :: "int \<Rightarrow> int \<Rightarrow> editor \<Rightarrow> editor" where
  "floodFill startX startY st =
     (case canvas st of
        None \<Rightarrow> st
      | Some imageData \<Rightarrow>
          let d = data imageData;
              w = width imageData;
              h = height imageData;
              prevData = imageData;
              st1 = st\<lparr>history := history st @ [prevData]\<rparr>;
              startIdx = (startY * int w + startX) * 4
          in if rd d (startIdx + 3) = Some 0 then st1
             else st1\<lparr>canvas :=
                    Some (putImageData imageData
                      (imageData\<lparr>data := floodFillData w h (tolerance st) d startX startY\<rparr>))\<rparr>)"

definition handleCanvasClick :: "int \<Rightarrow> int \<Rightarrow> editor \<Rightarrow> editor" where
  "handleCanvasClick x y st =
     (if \<not> bgRemoveMode st then st
      else case canvas st of None \<Rightarrow> st | Some c \<Rightarrow> floodFill x y st)"

text \<open>
  \<open>handleUndo\<close> (lines 170-184). Every entry of the history has been read from the
  canvas by \<open>getImageData\<close>; put on the cleared canvas, it is read back as it is.
\<close>

definition handleUndo :: "editor \<Rightarrow> editor" where
  "handleUndo st =
     (case canvas st of
        None \<Rightarrow> st
      | Some c \<Rightarrow>
          if length (history st) \<le> 1 then st
          else let newHistory = butlast (history st);
                   lastState = last newHistory
               in st\<lparr>canvas := Some lastState, history := newHistory\<rparr>)"

text \<open>
  \<open>handleRotate\<close> and \<open>handleScaleChange\<close> (lines 81-92), and the \<open>onload\<close> handler
  of the image (lines 37-42). JavaScript's \<open>%\<close> takes the sign of the dividend.
\<close>

definition jsRem :: "int \<Rightarrow> int \<Rightarrow> int" where
  "jsRem a b = sgn a * (\<bar>a\<bar> mod \<bar>b\<bar>)"

datatype direction = CW | CCW

definition handleRotate :: "direction \<Rightarrow> editor \<Rightarrow> editor" where
  "handleRotate dir st =
     st\<lparr>history := [],
        rotation := (if dir = CW then jsRem (rotation st + 90) 360
                     else jsRem (rotation st - 90 + 360) 360)\<rparr>"

definition handleScaleChange :: "nat \<Rightarrow> editor \<Rightarrow> editor" where
  "handleScaleChange v st = st\<lparr>history := [], scale := v\<rparr>"

definition onload :: "HTMLImage \<Rightarrow> editor \<Rightarrow> editor" where
  "onload img st = st\<lparr>originalImage := Some img, rotation := 0, scale := 100, history := []\<rparr>"

text \<open>
  JavaScript numbers are IEEE 754 doubles. \<open>toDouble\<close> rounds a rational to the
  nearest double (53 bits of mantissa, ties to even) in the normal range, which is where
  the sizes of an image lie. Assigning a number to \<open>canvas.width\<close> converts it to an
  unsigned long, which drops the fraction; the sizes of an image stay below the range
  where that conversion wraps around.
\<close>

fun bitLength :: "nat \<Rightarrow> nat" where
  "bitLength n = (if n = 0 then 0 else Suc (bitLength (n div 2)))"

definition pow2 :: "int \<Rightarrow> rat" where
  "pow2 e = (if 0 \<le> e then 2 ^ nat e else 1 / 2 ^ nat (- e))"

definition binExponent :: "rat \<Rightarrow> int" where
  "binExponent q =
     (if 1 \<le> q then int (bitLength (nat \<lfloor>q\<rfloor>)) - 1
      else - int (bitLength (nat (\<lceil>1 / q\<rceil> - 1))))"

definition roundTiesEven :: "rat \<Rightarrow> int" where
  "roundTiesEven q =
     (let f = \<lfloor>q\<rfloor>; r = q - of_int f
      in if r < 1 / 2 then f
         else if 1 / 2 < r then f + 1
         else if even f then f else f + 1)"

definition toDouble :: "rat \<Rightarrow> rat" where
  "toDouble q =
     (if q = 0 then 0
      else let u = pow2 (binExponent \<bar>q\<bar> - 52)
           in sgn q * of_int (roundTiesEven (\<bar>q\<bar> / u)) * u)"

definition toUnsignedLong :: "rat \<Rightarrow> nat" where
  "toUnsignedLong q = nat \<lfloor>q\<rfloor>"

text \<open>
  \<open>renderCanvas\<close> (lines 47-75). What \<open>clearRect\<close>, \<open>translate\<close>, \<open>rotate\<close> and
  \<open>drawImage\<close> leave on the canvas is the browser's business: the byte at each index
  is a parameter \<open>paint\<close> of the image, the rotation, the scaled size and the canvas
  size. \<open>drawn\<close> is the bitmap on the canvas after the drawing.

  When the history is empty, line 72 reads the bitmap back with \<open>getImageData\<close>, which
  throws an \<open>IndexSizeError\<close> when the canvas has a zero side. The error carries the
  state that the throw leaves: the canvas is resized and drawn, and \<open>setHistory\<close> has
  not been called. Nothing in the component catches it.
\<close>

datatype error = IndexSizeError editor

fun leaves :: "error + editor \<Rightarrow> editor" where
  "leaves (Inr st) = st"
| "leaves (Inl (IndexSizeError st)) = st"

type_synonym rasterizer = "HTMLImage \<Rightarrow> int \<Rightarrow> rat \<Rightarrow> rat \<Rightarrow> nat \<Rightarrow> nat \<Rightarrow> nat \<Rightarrow> byte"

definition scaledSize :: "HTMLImage \<Rightarrow> nat \<Rightarrow> rat \<times> rat" where
  "scaledSize img sc =
     (let scaleFactor = toDouble (of_nat sc / 100);
          w = toDouble (of_nat (imgWidth img) * scaleFactor);
          h = toDouble (of_nat (imgHeight img) * scaleFactor)
      in (w, h))"

definition canvasSize :: "HTMLImage \<Rightarrow> int \<Rightarrow> nat \<Rightarrow> nat \<times> nat" where
  "canvasSize img rot sc =
     (let isVertical = (rot = 90 \<or> rot = 270);
          (w, h) = scaledSize img sc
      in (toUnsignedLong (if isVertical then h else w),
          toUnsignedLong (if isVertical then w else h)))"

definition drawn :: "rasterizer \<Rightarrow> HTMLImage \<Rightarrow> int \<Rightarrow> nat \<Rightarrow> ImageData" where
  "drawn paint img rot sc =
     (let (w, h) = scaledSize img sc;
          (cw, ch) = canvasSize img rot sc
      in \<lparr>width = cw, height = ch,
          data = map (paint img rot w h cw ch) [0..<4 * cw * ch]\<rparr>)"

definition renderCanvas :: "rasterizer \<Rightarrow> editor \<Rightarrow> error + editor" where
  "renderCanvas paint st =
     (case canvas st of
        None \<Rightarrow> Inr st
      | Some c \<Rightarrow>
          (case originalImage st of
             None \<Rightarrow> Inr st
           | Some img \<Rightarrow>
               let imageData = drawn paint img (rotation st) (scale st);
                   st1 = st\<lparr>canvas := Some imageData\<rparr>
               in if length (history st) = 0 then
                    if width imageData = 0 \<or> height imageData = 0 then Inl (IndexSizeError st1)
                    else Inr (st1\<lparr>history := [imageData]\<rparr>)
                  else Inr st1))"

text \<open>
  \<open>renderCanvas\<close> is memoised on \<open>[originalImage, rotation, scale, history.length]\<close>
  (line 75), and the effect of lines 77-79 calls it whenever the memoised callback is a
  new one, that is whenever one of these four values differs from the previous render.
  \<open>runEffects\<close> is that loop: \<open>prev\<close> holds the dependencies of the previous render. An
  error thrown by \<open>renderCanvas\<close> ends it. \<open>dispatch\<close> runs an event handler and then the
  effects it triggers.
\<close>

definition deps :: "editor \<Rightarrow> HTMLImage option \<times> int \<times> nat \<times> nat" where
  "deps st = (originalImage st, rotation st, scale st, length (history st))"

function runEffects ::
  "rasterizer \<Rightarrow> HTMLImage option \<times> int \<times> nat \<times> nat \<Rightarrow> editor \<Rightarrow> error + editor" where
  "runEffects paint prev st =
     (if deps st = prev then Inr st
      else case renderCanvas paint st of
             Inl e \<Rightarrow> Inl e
           | Inr st' \<Rightarrow> runEffects paint (deps st) st')"
  by pat_completeness auto
termination
proof (relation "measure (\<lambda>(paint, prev, st).
        (if deps st = prev then 0 else 1) +
        (if history st = [] \<and> originalImage st \<noteq> None \<and> canvas st \<noteq> None then 2 else 0))")
  fix paint :: rasterizer and prev :: "HTMLImage option \<times> int \<times> nat \<times> nat"
    and st st' :: editor
  assume changed: "deps st \<noteq> prev" and r: "renderCanvas paint st = Inr st'"
  have seeds: "st' = st\<lparr>canvas := Some (drawn paint img (rotation st) (scale st)),
                        history := [drawn paint img (rotation st) (scale st)]\<rparr>"
    if "history st = []" "originalImage st = Some img" "canvas st = Some c" for img c
    using that r by (simp add: renderCanvas_def Let_def split: if_splits)
  have redraws: "st' = st\<lparr>canvas := Some (drawn paint img (rotation st) (scale st))\<rparr>"
    if "history st \<noteq> []" "originalImage st = Some img" "canvas st = Some c" for img c
    using that r by (simp add: renderCanvas_def Let_def)
  have idles: "st' = st" if "originalImage st = None \<or> canvas st = None"
    using that r by (auto simp add: renderCanvas_def split: option.splits)
  consider (seed) img c where "history st = []" "originalImage st = Some img" "canvas st = Some c"
    | (redraw) img c where "history st \<noteq> []" "originalImage st = Some img" "canvas st = Some c"
    | (idle) "originalImage st = None \<or> canvas st = None"
    by (cases "originalImage st"; cases "canvas st"; cases "history st = []") auto
  then have "(if deps st' = deps st then 0 else 1) +
        (if history st' = [] \<and> originalImage st' \<noteq> None \<and> canvas st' \<noteq> None then 2 else 0)
        < (1::nat) + (if history st = [] \<and> originalImage st \<noteq> None \<and> canvas st \<noteq> None
                      then 2 else 0)"
  proof cases
    case seed
    then show ?thesis by (simp add: seeds)
  next
    case redraw
    then show ?thesis by (simp add: redraws deps_def)
  next
    case idle
    then show ?thesis by (auto simp add: idles)
  qed
  with changed show "((paint, deps st, st'), paint, prev, st)
       \<in> measure (\<lambda>(paint, prev, st).
        (if deps st = prev then 0 else 1) +
        (if history st = [] \<and> originalImage st \<noteq> None \<and> canvas st \<noteq> None then 2 else 0))"
    by simp
qed simp

definition dispatch :: "rasterizer \<Rightarrow> (editor \<Rightarrow> editor) \<Rightarrow> editor \<Rightarrow> error + editor" where
  "dispatch paint handler st = runEffects paint (deps st) (handler st)"

text \<open>
  The events of a session, each its handler followed by the effects. \<open>run\<close> takes the
  events in turn and stops at the first error: an error thrown in an effect unmounts the
  component. A session is: an image is loaded, then any events follow. The image of a
  load is a new object (\<open>new Image()\<close>, line 35), so it is never the one that the state
  holds already; the theorems about sessions ask this of the first load.
\<close>

datatype event =
  Load HTMLImage
| Rotate direction
| Scale nat
| SetEraseMode bool
| SetTolerance nat
| Click int int
| Undo

fun step :: "rasterizer \<Rightarrow> editor \<Rightarrow> event \<Rightarrow> error + editor" where
  "step paint st (Load img) = dispatch paint (onload img) st"
| "step paint st (Rotate dir) = dispatch paint (handleRotate dir) st"
| "step paint st (Scale v) = dispatch paint (handleScaleChange v) st"
| "step paint st (SetEraseMode b) = dispatch paint (\<lambda>s. s\<lparr>bgRemoveMode := b\<rparr>) st"
| "step paint st (SetTolerance v) = dispatch paint (\<lambda>s. s\<lparr>tolerance := v\<rparr>) st"
| "step paint st (Click x y) = dispatch paint (handleCanvasClick x y) st"
| "step paint st Undo = dispatch paint handleUndo st"

fun run :: "rasterizer \<Rightarrow> editor \<Rightarrow> event list \<Rightarrow> error + editor" where
  "run paint st [] = Inr st"
| "run paint st (ev # evs) =
     (case step paint st ev of Inl e \<Rightarrow> Inl e | Inr st' \<Rightarrow> run paint st' evs)"

definition session :: "rasterizer \<Rightarrow> editor \<Rightarrow> HTMLImage \<Rightarrow> event list \<Rightarrow> error + editor" where
  "session paint st img evs = run paint st (Load img # evs)"

subsection \<open>The specification's own notions\<close>

text \<open>
  The specification rounds the scaled size half up and swaps the two sides for a
  rotation of 90 or 270 degrees.
\<close>

definition roundHalfUp :: "rat \<Rightarrow> int" where
  "roundHalfUp q = \<lfloor>q + 1 / 2\<rfloor>"

definition specCanvasSize :: "nat \<Rightarrow> nat \<Rightarrow> int \<Rightarrow> nat \<Rightarrow> int \<times> int" where
  "specCanvasSize w h rot sc =
     (let sw = roundHalfUp (of_nat w * of_nat sc / 100);
          sh = roundHalfUp (of_nat h * of_nat sc / 100)
      in if rot = 90 \<or> rot = 270 then (sh, sw) else (sw, sh))"

text \<open>
  A pixel is a pair of coordinates; it lies at position \<open>y * width + x\<close> of the buffer.
  The specification's fill region is what can be reached from the seed by steps to the
  four direct neighbours through pixels that are similar to the seed: inside the buffer,
  of positive alpha, and with each colour channel within the tolerance of the seed's.
  \<open>wellFormed\<close> is the data model's invariant on the length of the samples.
\<close>

definition inBounds :: "nat \<Rightarrow> nat \<Rightarrow> int \<times> int \<Rightarrow> bool" where
  "inBounds w h p = (0 \<le> fst p \<and> fst p < int w \<and> 0 \<le> snd p \<and> snd p < int h)"

definition pixelPos :: "nat \<Rightarrow> int \<times> int \<Rightarrow> int" where
  "pixelPos w p = snd p * int w + fst p"

definition neighbours4 :: "int \<times> int \<Rightarrow> (int \<times> int) set" where
  "neighbours4 p =
     {(fst p + 1, snd p), (fst p - 1, snd p), (fst p, snd p + 1), (fst p, snd p - 1)}"

inductive_set reach :: "(int \<times> int \<Rightarrow> bool) \<Rightarrow> int \<times> int \<Rightarrow> (int \<times> int) set"
  for ok :: "int \<times> int \<Rightarrow> bool" and seed :: "int \<times> int" where
  reach_seed: "ok seed \<Longrightarrow> seed \<in> reach ok seed"
| reach_neighbour: "p \<in> reach ok seed \<Longrightarrow> q \<in> neighbours4 p \<Longrightarrow> ok q \<Longrightarrow> q \<in> reach ok seed"

definition wellFormed :: "ImageData \<Rightarrow> bool" where
  "wellFormed c = (length (data c) = 4 * width c * height c)"

definition channel :: "ImageData \<Rightarrow> int \<times> int \<Rightarrow> nat \<Rightarrow> byte" where
  "channel c p k = data c ! (4 * nat (pixelPos (width c) p) + k)"

definition similar :: "ImageData \<Rightarrow> nat \<Rightarrow> int \<times> int \<Rightarrow> int \<times> int \<Rightarrow> bool" where
  "similar c tol seed p =
     (inBounds (width c) (height c) p \<and>
      0 < uint (channel c p 3) \<and>
      \<bar>uint (channel c p 0) - uint (channel c seed 0)\<bar> \<le> int tol \<and>
      \<bar>uint (channel c p 1) - uint (channel c seed 1)\<bar> \<le> int tol \<and>
      \<bar>uint (channel c p 2) - uint (channel c seed 2)\<bar> \<le> int tol)"

definition region :: "ImageData \<Rightarrow> nat \<Rightarrow> int \<times> int \<Rightarrow> (int \<times> int) set" where
  "region c tol seed = reach (similar c tol seed) seed"

subsection \<open>The invariant of the fill loop\<close>

text \<open>
  \<open>okPixel\<close> is the loop's own test on the data as it was before the loop, with the
  target colour as the code read it; \<open>marked\<close> is the set of pixels whose entry of
  \<open>visited\<close> is set. \<open>fillInv\<close> relates the marked pixels and the stack to the
  reachable set, \<open>dataRel\<close> says that the data differs from the initial data exactly
  in the alpha bytes of the marked pixels, which are 0.
\<close>

definition okPixel ::
  "nat \<Rightarrow> nat \<Rightarrow> byte list \<Rightarrow> byte option \<times> byte option \<times> byte option \<Rightarrow> nat \<Rightarrow>
   int \<times> int \<Rightarrow> bool" where
  "okPixel w h d0 target tol p = (inBounds w h p \<and> matches d0 target tol (pixelPos w p * 4))"

definition marked :: "nat \<Rightarrow> nat \<Rightarrow> bool list \<Rightarrow> (int \<times> int) set" where
  "marked w h V = {p. inBounds w h p \<and> V ! nat (pixelPos w p)}"

definition fillInv ::
  "(int \<times> int \<Rightarrow> bool) \<Rightarrow> int \<times> int \<Rightarrow> (int \<times> int) set \<Rightarrow> (int \<times> int) list \<Rightarrow> bool" where
  "fillInv ok seed S stack =
     (S \<subseteq> reach ok seed \<and>
      (\<forall>p \<in> set stack. ok p \<longrightarrow> p \<in> reach ok seed) \<and>
      (\<forall>p \<in> S. \<forall>q \<in> neighbours4 p. ok q \<longrightarrow> q \<in> S \<or> q \<in> set stack) \<and>
      (ok seed \<longrightarrow> seed \<in> S \<or> seed \<in> set stack))"

definition dataRel :: "nat \<Rightarrow> nat \<Rightarrow> byte list \<Rightarrow> byte list \<Rightarrow> bool list \<Rightarrow> bool" where
  "dataRel w h d0 d V =
     (length V = w * h \<and> length d = length d0 \<and>
      (\<forall>j < length d0.
         d ! j = (if \<exists>p \<in> marked w h V. int j = pixelPos w p * 4 + 3 then 0 else d0 ! j)))"

subsection \<open>The state between events\<close>

text \<open>
  Once an image is loaded and the effects have run without an error, the canvas shows
  the image as drawn for the current rotation and scale, it has no zero side, and every
  entry of the history is that bitmap.
\<close>

definition settled :: "rasterizer \<Rightarrow> editor \<Rightarrow> bool" where
  "settled paint st =
     (case originalImage st of
        None \<Rightarrow> False
      | Some img \<Rightarrow>
          history st \<noteq> [] \<and>
          canvas st = Some (drawn paint img (rotation st) (scale st)) \<and>
          set (history st) \<subseteq> {drawn paint img (rotation st) (scale st)} \<and>
          0 < width (drawn paint img (rotation st) (scale st)) \<and>
          0 < height (drawn paint img (rotation st) (scale st)))"

subsection \<open>Example values\<close>

definition demoPaint :: rasterizer where
  "demoPaint img rot w h cw ch i = (if i mod 4 = 3 then 255 else 100)"

definition demoImage :: HTMLImage where
  "demoImage = \<lparr>objId = 1, imgWidth = 2, imgHeight = 1\<rparr>"

definition blankCanvas :: ImageData where
  "blankCanvas = \<lparr>width = 1, height = 1, data = [0, 0, 0, 0]\<rparr>"

definition demoBuffer :: ImageData where
  "demoBuffer = \<lparr>width = 2, height = 1, data = [100, 100, 100, 255, 100, 100, 100, 255]\<rparr>"

definition demoEditor :: editor where
  "demoEditor =
     \<lparr>rotation = 0, scale = 100, bgRemoveMode = True, tolerance = 30,
      history = [demoBuffer, demoBuffer], originalImage = Some demoImage,
      canvas = Some demoBuffer\<rparr>"

definition initialEditor :: editor where
  "initialEditor =
     \<lparr>rotation = 0, scale = 100, bgRemoveMode = False, tolerance = 30, history = [],
      originalImage = None, canvas = Some blankCanvas\<rparr>"

definition stripeBuffer :: ImageData where
  "stripeBuffer = \<lparr>width = 3, height = 1,
      data = [100, 100, 100, 255, 110, 110, 110, 255, 200, 0, 0, 255]\<rparr>"

definition stripeEditor :: editor where
  "stripeEditor =
     \<lparr>rotation = 0, scale = 100, bgRemoveMode = True, tolerance = 30,
      history = [stripeBuffer], originalImage = Some demoImage,
      canvas = Some stripeBuffer\<rparr>"

section \<open>Effects and the state between events\<close>

declare runEffects.simps [simp del]
declare floodLoop.simps [simp del]
declare bitLength.simps [simp del]

lemma renderCanvas_seed:
  "history st = [] \<Longrightarrow> originalImage st = Some img \<Longrightarrow> canvas st = Some c \<Longrightarrow>
   0 < width (drawn paint img (rotation st) (scale st)) \<Longrightarrow>
   0 < height (drawn paint img (rotation st) (scale st)) \<Longrightarrow>
   renderCanvas paint st =
     Inr (st\<lparr>canvas := Some (drawn paint img (rotation st) (scale st)),
            history := [drawn paint img (rotation st) (scale st)]\<rparr>)"
  by (simp add: renderCanvas_def Let_def)

lemma renderCanvas_throws:
  "history st = [] \<Longrightarrow> originalImage st = Some img \<Longrightarrow> canvas st = Some c \<Longrightarrow>
   width (drawn paint img (rotation st) (scale st)) = 0 \<or>
   height (drawn paint img (rotation st) (scale st)) = 0 \<Longrightarrow>
   renderCanvas paint st =
     Inl (IndexSizeError (st\<lparr>canvas := Some (drawn paint img (rotation st) (scale st))\<rparr>))"
  by (simp add: renderCanvas_def Let_def)

lemma renderCanvas_redraw:
  "history st \<noteq> [] \<Longrightarrow> originalImage st = Some img \<Longrightarrow> canvas st = Some c \<Longrightarrow>
   renderCanvas paint st = Inr (st\<lparr>canvas := Some (drawn paint img (rotation st) (scale st))\<rparr>)"
  by (simp add: renderCanvas_def Let_def)

lemma runEffects_unchanged: "deps st = prev \<Longrightarrow> runEffects paint prev st = Inr st"
  by (simp add: runEffects.simps)

lemma runEffects_redraw:
  assumes "deps st \<noteq> prev" "history st \<noteq> []" "originalImage st = Some img" "canvas st = Some c"
  shows "runEffects paint prev st =
           Inr (st\<lparr>canvas := Some (drawn paint img (rotation st) (scale st))\<rparr>)"
proof -
  let ?st1 = "st\<lparr>canvas := Some (drawn paint img (rotation st) (scale st))\<rparr>"
  have r: "renderCanvas paint st = Inr ?st1"
    using assms by (simp add: renderCanvas_redraw)
  have "runEffects paint prev st = runEffects paint (deps st) ?st1"
    using assms(1) r by (simp add: runEffects.simps[of paint prev st])
  also have "\<dots> = Inr ?st1"
    by (rule runEffects_unchanged) (simp add: deps_def)
  finally show ?thesis .
qed

lemma runEffects_seed:
  assumes "deps st \<noteq> prev" "history st = []" "originalImage st = Some img" "canvas st = Some c"
    and "0 < width (drawn paint img (rotation st) (scale st))"
    and "0 < height (drawn paint img (rotation st) (scale st))"
  shows "runEffects paint prev st =
           Inr (st\<lparr>canvas := Some (drawn paint img (rotation st) (scale st)),
                  history := [drawn paint img (rotation st) (scale st)]\<rparr>)"
proof -
  let ?B = "drawn paint img (rotation st) (scale st)"
  let ?st1 = "st\<lparr>canvas := Some ?B, history := [?B]\<rparr>"
  have r: "renderCanvas paint st = Inr ?st1"
    using assms by (simp add: renderCanvas_seed)
  have "runEffects paint prev st = runEffects paint (deps st) ?st1"
    using assms(1) r by (simp add: runEffects.simps[of paint prev st])
  also have "\<dots> = Inr (?st1\<lparr>canvas := Some (drawn paint img (rotation ?st1) (scale ?st1))\<rparr>)"
    by (rule runEffects_redraw[where c = ?B]) (simp_all add: deps_def assms)
  also have "\<dots> = Inr ?st1" by simp
  finally show ?thesis .
qed

lemma runEffects_throws:
  assumes "deps st \<noteq> prev" "history st = []" "originalImage st = Some img" "canvas st = Some c"
    and "width (drawn paint img (rotation st) (scale st)) = 0 \<or>
         height (drawn paint img (rotation st) (scale st)) = 0"
  shows "runEffects paint prev st =
           Inl (IndexSizeError (st\<lparr>canvas := Some (drawn paint img (rotation st) (scale st))\<rparr>))"
proof -
  have r: "renderCanvas paint st =
      Inl (IndexSizeError (st\<lparr>canvas := Some (drawn paint img (rotation st) (scale st))\<rparr>))"
    using assms(2-5) by (rule renderCanvas_throws)
  show ?thesis
    using assms(1) r by (simp add: runEffects.simps[of paint prev st])
qed

lemma settledD:
  assumes "settled paint st"
  obtains img where "originalImage st = Some img" "history st \<noteq> []"
    "canvas st = Some (drawn paint img (rotation st) (scale st))"
    "set (history st) \<subseteq> {drawn paint img (rotation st) (scale st)}"
    "0 < width (drawn paint img (rotation st) (scale st))"
    "0 < height (drawn paint img (rotation st) (scale st))"
  using assms by (auto simp: settled_def split: option.splits)

lemma settled_last:
  assumes "settled paint st"
  shows "history st \<noteq> [] \<and> canvas st = Some (last (history st))"
proof -
  from assms obtain img where h: "history st \<noteq> []"
    "canvas st = Some (drawn paint img (rotation st) (scale st))"
    "set (history st) \<subseteq> {drawn paint img (rotation st) (scale st)}"
    by (rule settledD)
  from h(1) have "last (history st) \<in> set (history st)" by simp
  with h(3) have "last (history st) = drawn paint img (rotation st) (scale st)" by blast
  with h show ?thesis by simp
qed

text \<open>
  A handler that empties the history, with an image loaded: the effect draws the canvas
  and seeds the history, or throws when the canvas has a zero side.
\<close>

lemma reseed_outcome:
  assumes "deps (f st) \<noteq> deps st" "history (f st) = []" "originalImage (f st) = Some img"
    "canvas (f st) = Some c"
  shows "dispatch paint f st =
           (if width (drawn paint img (rotation (f st)) (scale (f st))) = 0 \<or>
               height (drawn paint img (rotation (f st)) (scale (f st))) = 0
            then Inl (IndexSizeError
                   ((f st)\<lparr>canvas := Some (drawn paint img (rotation (f st)) (scale (f st)))\<rparr>))
            else Inr ((f st)\<lparr>canvas := Some (drawn paint img (rotation (f st)) (scale (f st))),
                          history := [drawn paint img (rotation (f st)) (scale (f st))]\<rparr>))"
proof (cases "width (drawn paint img (rotation (f st)) (scale (f st))) = 0 \<or>
               height (drawn paint img (rotation (f st)) (scale (f st))) = 0")
  case True
  with runEffects_throws[OF assms(1) assms(2) assms(3) assms(4) True]
  show ?thesis by (simp add: dispatch_def)
next
  case False
  then have w: "0 < width (drawn paint img (rotation (f st)) (scale (f st)))"
    and h: "0 < height (drawn paint img (rotation (f st)) (scale (f st)))" by simp_all
  from runEffects_seed[OF assms(1) assms(2) assms(3) assms(4) w h] False
  show ?thesis by (simp add: dispatch_def)
qed

lemma reseed_settled:
  assumes "deps (f st) \<noteq> deps st" "history (f st) = []" "originalImage (f st) = Some img"
    "canvas (f st) = Some c" and "dispatch paint f st = Inr s"
  shows "settled paint s"
proof -
  let ?B = "drawn paint img (rotation (f st)) (scale (f st))"
  from assms(5) reseed_outcome[where f = f and st = st and paint = paint, OF assms(1-4)]
  have "s = (f st)\<lparr>canvas := Some ?B, history := [?B]\<rparr> \<and> 0 < width ?B \<and> 0 < height ?B"
    by (simp split: if_splits)
  then show ?thesis using assms(3) by (simp add: settled_def)
qed

lemma load_settles:
  assumes "canvas st = Some c" "originalImage st \<noteq> Some img"
    and "step paint st (Load img) = Inr s"
  shows "settled paint s"
proof -
  have "deps (onload img st) \<noteq> deps st" using assms(2) by (simp add: deps_def onload_def)
  moreover have "history (onload img st) = []" "originalImage (onload img st) = Some img"
    "canvas (onload img st) = Some c"
    using assms(1) by (simp_all add: onload_def)
  moreover have "dispatch paint (onload img) st = Inr s" using assms(3) by simp
  ultimately show ?thesis by (rule reseed_settled[where f = "onload img" and st = st])
qed

lemma floodFill_shape:
  assumes "canvas st = Some c"
  shows "\<exists>c'. floodFill x y st = st\<lparr>history := history st @ [c], canvas := Some c'\<rparr>"
proof (cases "rd (data c) ((y * int (width c) + x) * 4 + 3) = Some 0")
  case True
  then have "floodFill x y st = st\<lparr>history := history st @ [c]\<rparr>"
    using assms by (simp add: floodFill_def Let_def)
  also have "\<dots> = st\<lparr>history := history st @ [c], canvas := Some c\<rparr>"
    using assms by simp
  finally show ?thesis by blast
next
  case False
  then have "floodFill x y st = st\<lparr>history := history st @ [c],
      canvas := Some (putImageData c
        (c\<lparr>data := floodFillData (width c) (height c) (tolerance st) (data c) x y\<rparr>))\<rparr>"
    using assms by (simp add: floodFill_def Let_def)
  then show ?thesis by blast
qed

lemma click_settled:
  assumes "settled paint st" "bgRemoveMode st" "canvas st = Some B"
  shows "step paint st (Click x y) = Inr (st\<lparr>history := history st @ [B]\<rparr>)"
proof -
  from assms(1) obtain img where img: "originalImage st = Some img"
    and cv: "canvas st = Some (drawn paint img (rotation st) (scale st))"
    by (rule settledD)
  from cv assms(3) have B: "B = drawn paint img (rotation st) (scale st)" by simp
  have hc: "handleCanvasClick x y st = floodFill x y st"
    using assms(2,3) by (simp add: handleCanvasClick_def)
  from floodFill_shape[OF assms(3)] obtain c' where
    ff: "floodFill x y st = st\<lparr>history := history st @ [B], canvas := Some c'\<rparr>" by blast
  let ?s = "st\<lparr>history := history st @ [B], canvas := Some c'\<rparr>"
  have "runEffects paint (deps st) ?s =
          Inr (?s\<lparr>canvas := Some (drawn paint img (rotation ?s) (scale ?s))\<rparr>)"
    by (rule runEffects_redraw[where c = c']) (simp_all add: deps_def img)
  then show ?thesis
    using assms(3) by (simp add: dispatch_def hc ff B[symmetric])
qed

lemma click_off:
  assumes "\<not> bgRemoveMode st"
  shows "step paint st (Click x y) = Inr st"
proof -
  have "handleCanvasClick x y st = st"
    using assms by (simp add: handleCanvasClick_def)
  then show ?thesis by (simp add: dispatch_def runEffects_unchanged)
qed

lemma handleUndo_settled:
  assumes "settled paint st" "1 < length (history st)"
  shows "handleUndo st = st\<lparr>history := butlast (history st)\<rparr>"
proof -
  from assms(1) obtain img where img: "originalImage st = Some img" and hne: "history st \<noteq> []"
    and cv: "canvas st = Some (drawn paint img (rotation st) (scale st))"
    and hs: "set (history st) \<subseteq> {drawn paint img (rotation st) (scale st)}"
    by (rule settledD)
  let ?B = "drawn paint img (rotation st) (scale st)"
  from assms(2) have bne: "butlast (history st) \<noteq> []"
    by (cases "history st" rule: rev_cases) auto
  have bsub: "set (butlast (history st)) \<subseteq> {?B}"
    using hs by (meson in_set_butlastD subset_iff)
  with bne have lb: "last (butlast (history st)) = ?B"
    using last_in_set by fastforce
  show ?thesis
    using assms(2) cv lb by (simp add: handleUndo_def Let_def)
qed

lemma undo_settled:
  assumes "settled paint st" "1 < length (history st)"
  shows "step paint st Undo = Inr (st\<lparr>history := butlast (history st)\<rparr>)"
proof -
  from assms(1) obtain img where img: "originalImage st = Some img" and hne: "history st \<noteq> []"
    and cv: "canvas st = Some (drawn paint img (rotation st) (scale st))"
    by (rule settledD)
  from assms(2) have bne: "butlast (history st) \<noteq> []"
    by (cases "history st" rule: rev_cases) auto
  let ?s = "st\<lparr>history := butlast (history st)\<rparr>"
  have hu: "handleUndo st = ?s" using assms by (rule handleUndo_settled)
  have "length (butlast (history st)) \<noteq> length (history st)"
    using hne by (cases "history st") auto
  then have "deps ?s \<noteq> deps st" by (simp add: deps_def)
  then have "runEffects paint (deps st) ?s =
               Inr (?s\<lparr>canvas := Some (drawn paint img (rotation ?s) (scale ?s))\<rparr>)"
    by (rule runEffects_redraw[where c = "drawn paint img (rotation st) (scale st)"])
       (simp_all add: bne img cv)
  then show ?thesis
    using cv by (simp add: dispatch_def hu)
qed

lemma undo_short_history:
  assumes "length (history st) \<le> 1"
  shows "handleUndo st = st" and "step paint st Undo = Inr st"
proof -
  show u: "handleUndo st = st"
    using assms by (simp add: handleUndo_def split: option.splits)
  show "step paint st Undo = Inr st"
    by (simp add: dispatch_def u runEffects_unchanged)
qed

lemma step_settled:
  assumes "settled paint st" and "step paint st ev = Inr s"
  shows "settled paint s"
proof -
  from assms(1) obtain img where img: "originalImage st = Some img" and hne: "history st \<noteq> []"
    and cv: "canvas st = Some (drawn paint img (rotation st) (scale st))"
    and hs: "set (history st) \<subseteq> {drawn paint img (rotation st) (scale st)}"
    and sz: "0 < width (drawn paint img (rotation st) (scale st))"
      "0 < height (drawn paint img (rotation st) (scale st))"
    by (rule settledD)
  let ?B = "drawn paint img (rotation st) (scale st)"
  show ?thesis
  proof (cases ev)
    case (Load img')
    have "deps (onload img' st) \<noteq> deps st" using hne by (simp add: deps_def onload_def)
    moreover have "history (onload img' st) = []" "originalImage (onload img' st) = Some img'"
      "canvas (onload img' st) = Some ?B"
      using cv by (simp_all add: onload_def)
    moreover have "dispatch paint (onload img') st = Inr s" using assms(2) Load by simp
    ultimately show ?thesis by (rule reseed_settled[where f = "onload img'" and st = st])
  next
    case (Rotate dir)
    have "deps (handleRotate dir st) \<noteq> deps st" using hne by (simp add: deps_def handleRotate_def)
    moreover have "history (handleRotate dir st) = []"
      "originalImage (handleRotate dir st) = Some img" "canvas (handleRotate dir st) = Some ?B"
      using cv img by (simp_all add: handleRotate_def)
    moreover have "dispatch paint (handleRotate dir) st = Inr s" using assms(2) Rotate by simp
    ultimately show ?thesis by (rule reseed_settled[where f = "handleRotate dir" and st = st])
  next
    case (Scale v)
    have "deps (handleScaleChange v st) \<noteq> deps st"
      using hne by (simp add: deps_def handleScaleChange_def)
    moreover have "history (handleScaleChange v st) = []"
      "originalImage (handleScaleChange v st) = Some img"
      "canvas (handleScaleChange v st) = Some ?B"
      using cv img by (simp_all add: handleScaleChange_def)
    moreover have "dispatch paint (handleScaleChange v) st = Inr s" using assms(2) Scale by simp
    ultimately show ?thesis by (rule reseed_settled[where f = "handleScaleChange v" and st = st])
  next
    case (SetEraseMode b)
    have "dispatch paint (\<lambda>s. s\<lparr>bgRemoveMode := b\<rparr>) st = Inr (st\<lparr>bgRemoveMode := b\<rparr>)"
      unfolding dispatch_def by (rule runEffects_unchanged) (simp add: deps_def)
    with assms(2) SetEraseMode have "s = st\<lparr>bgRemoveMode := b\<rparr>" by simp
    then show ?thesis using img hne cv hs sz by (simp add: settled_def)
  next
    case (SetTolerance v)
    have "dispatch paint (\<lambda>s. s\<lparr>tolerance := v\<rparr>) st = Inr (st\<lparr>tolerance := v\<rparr>)"
      unfolding dispatch_def by (rule runEffects_unchanged) (simp add: deps_def)
    with assms(2) SetTolerance have "s = st\<lparr>tolerance := v\<rparr>" by simp
    then show ?thesis using img hne cv hs sz by (simp add: settled_def)
  next
    case (Click x y)
    show ?thesis
    proof (cases "bgRemoveMode st")
      case False
      from click_off[OF False, of paint x y] assms(2) Click have "s = st" by simp
      then show ?thesis using assms(1) by simp
    next
      case True
      from click_settled[OF assms(1) True cv, of x y] assms(2) Click
      have "s = st\<lparr>history := history st @ [?B]\<rparr>" by simp
      then show ?thesis using img cv hs sz by (simp add: settled_def)
    qed
  next
    case Undo
    show ?thesis
    proof (cases "length (history st) \<le> 1")
      case True
      from undo_short_history(2)[OF True, of paint] assms(2) Undo have "s = st" by simp
      then show ?thesis using assms(1) by simp
    next
      case False
      then have l: "1 < length (history st)" by simp
      then have bne: "butlast (history st) \<noteq> []"
        by (cases "history st" rule: rev_cases) auto
      have bsub: "set (butlast (history st)) \<subseteq> {?B}"
        using hs by (meson in_set_butlastD subset_iff)
      from undo_settled[OF assms(1) l] assms(2) Undo
      have "s = st\<lparr>history := butlast (history st)\<rparr>" by simp
      then show ?thesis using img cv bne bsub sz by (simp add: settled_def)
    qed
  qed
qed

lemma run_settled:
  "settled paint st \<Longrightarrow> run paint st evs = Inr s \<Longrightarrow> settled paint s"
proof (induction evs arbitrary: st)
  case Nil
  then show ?case by simp
next
  case (Cons ev evs)
  from Cons.prems(2) obtain st' where s: "step paint st ev = Inr st'"
    and r: "run paint st' evs = Inr s"
    by (auto split: sum.splits)
  from Cons.prems(1) s have "settled paint st'" by (rule step_settled)
  then show ?case using r by (rule Cons.IH)
qed

lemma session_settled:
  assumes "canvas st = Some c" "originalImage st \<noteq> Some img"
    and "session paint st img evs = Inr s"
  shows "settled paint s"
proof -
  from assms(3) obtain st' where l: "step paint st (Load img) = Inr st'"
    and r: "run paint st' evs = Inr s"
    by (auto simp: session_def split: sum.splits)
  from assms(1,2) l have "settled paint st'" by (rule load_settles)
  then show ?thesis using r by (rule run_settled)
qed

text \<open>
  The bitmap of the canvas has four bytes for each pixel and, in a session that has
  thrown no error, no zero side: the canvas is well formed, and \<open>getImageData\<close> in
  \<open>floodFill\<close> has pixels to read.
\<close>

lemma drawn_wellFormed: "wellFormed (drawn paint img rot sc)"
  by (simp add: drawn_def wellFormed_def split: prod.splits)

lemma session_canvas_wellFormed:
  assumes "canvas st0 = Some c0" and "originalImage st0 \<noteq> Some img"
    and "session paint st0 img evs = Inr s"
  shows "\<exists>c. canvas s = Some c \<and> wellFormed c \<and> 0 < width c \<and> 0 < height c"
proof -
  have "settled paint s"
    using assms by (rule session_settled)
  then show ?thesis by (auto elim!: settledD simp: drawn_wellFormed)
qed

section \<open>The history and undo\<close>

lemma demo_session:
  "session demoPaint initialEditor demoImage [SetEraseMode True] =
     Inr (demoEditor\<lparr>history := [demoBuffer]\<rparr>)"
  by code_simp

lemma demo_handler_erases:
  "canvas (handleCanvasClick 0 0 (demoEditor\<lparr>history := [demoBuffer]\<rparr>)) =
     Some \<lparr>width = 2, height = 1, data = [0, 0, 0, 0, 0, 0, 0, 0]\<rparr>"
  by code_simp

lemma click_undo_handlers:
  assumes "settled paint st" "bgRemoveMode st"
  shows "handleUndo (handleCanvasClick x y st) = st"
proof -
  from assms(1) obtain img where hne: "history st \<noteq> []"
    and cv: "canvas st = Some (drawn paint img (rotation st) (scale st))"
    by (rule settledD)
  let ?B = "drawn paint img (rotation st) (scale st)"
  from settled_last[OF assms(1)] cv have lst: "last (history st) = ?B" by simp
  have hc: "handleCanvasClick x y st = floodFill x y st"
    using assms(2) cv by (simp add: handleCanvasClick_def)
  from floodFill_shape[OF cv] obtain c' where
    ff: "floodFill x y st = st\<lparr>history := history st @ [?B], canvas := Some c'\<rparr>" by blast
  have "handleUndo (st\<lparr>history := history st @ [?B], canvas := Some c'\<rparr>) =
          st\<lparr>history := history st, canvas := Some ?B\<rparr>"
    using hne lst by (cases "history st") (simp_all add: handleUndo_def Let_def)
  also have "\<dots> = st" using cv by simp
  finally show ?thesis by (simp add: hc ff)
qed

text \<open>
  C1: in a session that has thrown no error, with the erase mode on, a click followed by
  undo restores the buffer of before the click: the same width, height and bytes. This
  holds of the two handlers on their own: \<open>handleCanvasClick\<close> fills the canvas and
  appends the buffer of before the fill to the history, and \<open>handleUndo\<close>, run on that
  state, drops the entry and puts the entry before it on the canvas, which is the buffer
  of before the click; the whole state is the one of before the click. It also holds of
  the two events with their effects, where the effect draws the canvas anew after each of
  them. In the example the click's handler erases both pixels of the canvas.
\<close>

theorem undo_after_click_restores:
  assumes "canvas st0 = Some c0" and "originalImage st0 \<noteq> Some img"
    and "session paint st0 img evs = Inr s" and "bgRemoveMode s"
  shows "canvas (handleUndo (handleCanvasClick x y s)) = canvas s \<and>
         handleUndo (handleCanvasClick x y s) = s \<and>
         run paint s [Click x y, Undo] = Inr s"
proof -
  have st: "settled paint s" using assms(1-3) by (rule session_settled)
  then obtain B where cv: "canvas s = Some B" by (auto elim: settledD)
  have h: "handleUndo (handleCanvasClick x y s) = s"
    using st assms(4) by (rule click_undo_handlers)
  let ?s1 = "s\<lparr>history := history s @ [B]\<rparr>"
  have c1: "step paint s (Click x y) = Inr ?s1"
    using st assms(4) cv by (rule click_settled)
  then have st1: "settled paint ?s1" using st step_settled by blast
  from st have "history s \<noteq> []" by (rule settledD)
  then have "1 < length (history ?s1)" by (cases "history s") simp_all
  with st1 have "step paint ?s1 Undo = Inr (?s1\<lparr>history := butlast (history ?s1)\<rparr>)"
    by (rule undo_settled)
  then have c2: "step paint ?s1 Undo = Inr s" by simp
  have "run paint s [Click x y, Undo] = Inr s"
    by (simp add: c1 c2 del: step.simps)
  with h show ?thesis by simp
qed

theorem undo_after_click_restores_witness:
  "canvas initialEditor = Some blankCanvas \<and> originalImage initialEditor \<noteq> Some demoImage \<and>
   session demoPaint initialEditor demoImage [SetEraseMode True] =
     Inr (demoEditor\<lparr>history := [demoBuffer]\<rparr>) \<and>
   bgRemoveMode (demoEditor\<lparr>history := [demoBuffer]\<rparr>) \<and>
   canvas (demoEditor\<lparr>history := [demoBuffer]\<rparr>) = Some demoBuffer \<and>
   canvas (handleCanvasClick 0 0 (demoEditor\<lparr>history := [demoBuffer]\<rparr>)) =
     Some \<lparr>width = 2, height = 1, data = [0, 0, 0, 0, 0, 0, 0, 0]\<rparr> \<and>
   canvas (handleUndo (handleCanvasClick 0 0 (demoEditor\<lparr>history := [demoBuffer]\<rparr>))) =
     Some demoBuffer \<and>
   handleUndo (handleCanvasClick 0 0 (demoEditor\<lparr>history := [demoBuffer]\<rparr>)) =
     demoEditor\<lparr>history := [demoBuffer]\<rparr> \<and>
   run demoPaint (demoEditor\<lparr>history := [demoBuffer]\<rparr>) [Click 0 0, Undo] =
     Inr (demoEditor\<lparr>history := [demoBuffer]\<rparr>)"
proof -
  have c: "canvas initialEditor = Some blankCanvas" by (simp add: initialEditor_def)
  have i: "originalImage initialEditor \<noteq> Some demoImage" by (simp add: initialEditor_def)
  have m: "bgRemoveMode (demoEditor\<lparr>history := [demoBuffer]\<rparr>)" by (simp add: demoEditor_def)
  have b: "canvas (demoEditor\<lparr>history := [demoBuffer]\<rparr>) = Some demoBuffer"
    by (simp add: demoEditor_def)
  from undo_after_click_restores[OF c i demo_session m, of 0 0] c i demo_session m b
    demo_handler_erases
  show ?thesis by simp
qed

text \<open>
  C2: the invariant fails where the drawn canvas has a zero side. An image of 2 by 1
  pixels is loaded and the scale is set to 50: the scaled height is 0.5, the canvas is
  1 by 0, \<open>getImageData\<close> in line 72 throws, and \<open>setHistory\<close> of line 73 is not
  reached. The history, emptied by \<open>handleScaleChange\<close>, stays empty: it has no last
  entry for the canvas to be equal to.
\<close>

theorem zero_side_render_leaves_history_empty:
  "session demoPaint initialEditor demoImage [Scale 50] =
     Inl (IndexSizeError
       \<lparr>rotation = 0, scale = 50, bgRemoveMode = False, tolerance = 30, history = [],
        originalImage = Some demoImage,
        canvas = Some \<lparr>width = 1, height = 0, data = []\<rparr>\<rparr>)"
  by code_simp

text \<open>
  In every session that has thrown no error the invariant holds: after each event (a
  load, a rotation, a change of scale, a click, an undo, a change of the erase mode or of
  the tolerance) and the effects it triggers, the history is not empty and the canvas
  equals its last entry.
\<close>

theorem canvas_is_last_history:
  assumes "canvas st0 = Some c0" and "originalImage st0 \<noteq> Some img"
    and "session paint st0 img evs = Inr s"
  shows "history s \<noteq> [] \<and> canvas s = Some (last (history s))"
proof -
  have "settled paint s"
    using assms by (rule session_settled)
  then show ?thesis by (rule settled_last)
qed

lemma demo_long_session:
  "session demoPaint initialEditor demoImage [SetEraseMode True, Click 0 0, Undo, Click 1 0,
       Rotate CW] =
     Inr \<lparr>rotation = 90, scale = 100, bgRemoveMode = True, tolerance = 30,
          history = [\<lparr>width = 1, height = 2, data = [100, 100, 100, 255, 100, 100, 100, 255]\<rparr>],
          originalImage = Some demoImage,
          canvas = Some \<lparr>width = 1, height = 2,
                         data = [100, 100, 100, 255, 100, 100, 100, 255]\<rparr>\<rparr>"
  by code_simp

theorem canvas_is_last_history_witness:
  "canvas initialEditor = Some blankCanvas \<and> originalImage initialEditor \<noteq> Some demoImage \<and>
   session demoPaint initialEditor demoImage [SetEraseMode True, Click 0 0, Undo, Click 1 0,
       Rotate CW] =
     Inr \<lparr>rotation = 90, scale = 100, bgRemoveMode = True, tolerance = 30,
          history = [\<lparr>width = 1, height = 2, data = [100, 100, 100, 255, 100, 100, 100, 255]\<rparr>],
          originalImage = Some demoImage,
          canvas = Some \<lparr>width = 1, height = 2,
                         data = [100, 100, 100, 255, 100, 100, 100, 255]\<rparr>\<rparr> \<and>
   canvas \<lparr>rotation = 90, scale = 100, bgRemoveMode = True, tolerance = 30,
          history = [\<lparr>width = 1, height = 2, data = [100, 100, 100, 255, 100, 100, 100, 255]\<rparr>],
          originalImage = Some demoImage,
          canvas = Some \<lparr>width = 1, height = 2,
                         data = [100, 100, 100, 255, 100, 100, 100, 255]\<rparr>\<rparr> =
     Some (last [\<lparr>width = 1, height = 2, data = [100, 100, 100, 255, 100, 100, 100, 255]\<rparr>])"
proof -
  have c: "canvas initialEditor = Some blankCanvas" by (simp add: initialEditor_def)
  have i: "originalImage initialEditor \<noteq> Some demoImage" by (simp add: initialEditor_def)
  from canvas_is_last_history[OF c i demo_long_session] c i demo_long_session
  show ?thesis by simp
qed

text \<open>
  C7: the re-seeding fails where the newly drawn canvas has a zero side. With the image
  of 2 by 1 pixels at scale 100 and two entries in the history, a change of the scale to
  50 empties the history; the canvas is then 1 by 0, \<open>getImageData\<close> in line 72 throws,
  and the history stays empty instead of holding the new baseline.
\<close>

theorem zero_side_scale_change_throws:
  "history demoEditor = [demoBuffer, demoBuffer] \<and>
   step demoPaint demoEditor (Scale 50) =
     Inl (IndexSizeError
       \<lparr>rotation = 0, scale = 50, bgRemoveMode = True, tolerance = 30, history = [],
        originalImage = Some demoImage,
        canvas = Some \<lparr>width = 1, height = 0, data = []\<rparr>\<rparr>)"
proof -
  have "step demoPaint demoEditor (Scale 50) =
     Inl (IndexSizeError
       \<lparr>rotation = 0, scale = 50, bgRemoveMode = True, tolerance = 30, history = [],
        originalImage = Some demoImage,
        canvas = Some \<lparr>width = 1, height = 0, data = []\<rparr>\<rparr>)"
    by code_simp
  then show ?thesis by (simp add: demoEditor_def)
qed

text \<open>
  Where the canvas that a rotation or a change of scale leaves has no zero side, the
  event throws no error and leaves a history of exactly one entry, the bitmap drawn for
  the new rotation and scale, which is also on the canvas; an undo after it changes
  nothing. \<open>leaves\<close> is the state after the event, whether it has thrown or not.
\<close>

theorem geometry_change_resets_history:
  assumes "canvas st = Some c" and "originalImage st = Some img" and "history st \<noteq> []"
    and "ev = Rotate dir \<or> ev = Scale v"
    and "0 < width (drawn paint img (rotation (leaves (step paint st ev)))
                      (scale (leaves (step paint st ev))))"
    and "0 < height (drawn paint img (rotation (leaves (step paint st ev)))
                       (scale (leaves (step paint st ev))))"
  shows "step paint st ev = Inr (leaves (step paint st ev)) \<and>
         history (leaves (step paint st ev)) =
           [drawn paint img (rotation (leaves (step paint st ev)))
              (scale (leaves (step paint st ev)))] \<and>
         canvas (leaves (step paint st ev)) =
           Some (drawn paint img (rotation (leaves (step paint st ev)))
              (scale (leaves (step paint st ev)))) \<and>
         step paint (leaves (step paint st ev)) Undo = Inr (leaves (step paint st ev))"
proof -
  from assms(4) obtain f where f: "f = handleRotate dir \<or> f = handleScaleChange v"
    and sf: "step paint st ev = dispatch paint f st"
  proof
    assume "ev = Rotate dir"
    then show thesis using that[of "handleRotate dir"] by simp
  next
    assume "ev = Scale v"
    then show thesis using that[of "handleScaleChange v"] by simp
  qed
  have d: "deps (f st) \<noteq> deps st"
    using f assms(3) by (auto simp: deps_def handleRotate_def handleScaleChange_def)
  have h: "history (f st) = []" "originalImage (f st) = Some img" "canvas (f st) = Some c"
    using f assms(1,2) by (auto simp: handleRotate_def handleScaleChange_def)
  let ?B = "drawn paint img (rotation (f st)) (scale (f st))"
  note out = reseed_outcome[where f = f and st = st and paint = paint, OF d h]
  have rs: "rotation (leaves (step paint st ev)) = rotation (f st)"
    "scale (leaves (step paint st ev)) = scale (f st)"
    by (simp_all add: sf out)
  from assms(5,6) have nz: "0 < width ?B" "0 < height ?B" by (simp_all only: rs)
  have s: "step paint st ev = Inr ((f st)\<lparr>canvas := Some ?B, history := [?B]\<rparr>)"
    using nz by (simp add: sf out)
  let ?s = "(f st)\<lparr>canvas := Some ?B, history := [?B]\<rparr>"
  have "length (history ?s) \<le> 1" by simp
  then have u: "step paint ?s Undo = Inr ?s" by (rule undo_short_history)
  show ?thesis
    by (simp only: s leaves.simps u) simp
qed

lemma demo_rotate:
  "step demoPaint demoEditor (Rotate CW) =
     Inr \<lparr>rotation = 90, scale = 100, bgRemoveMode = True, tolerance = 30,
          history = [\<lparr>width = 1, height = 2, data = [100, 100, 100, 255, 100, 100, 100, 255]\<rparr>],
          originalImage = Some demoImage,
          canvas = Some \<lparr>width = 1, height = 2,
                         data = [100, 100, 100, 255, 100, 100, 100, 255]\<rparr>\<rparr>"
  by code_simp

lemma demo_drawn_rotated:
  "drawn demoPaint demoImage 90 100 =
     \<lparr>width = 1, height = 2, data = [100, 100, 100, 255, 100, 100, 100, 255]\<rparr>"
  by code_simp

theorem geometry_change_resets_history_witness:
  "canvas demoEditor = Some demoBuffer \<and> originalImage demoEditor = Some demoImage \<and>
   history demoEditor = [demoBuffer, demoBuffer] \<and>
   drawn demoPaint demoImage 90 100 =
     \<lparr>width = 1, height = 2, data = [100, 100, 100, 255, 100, 100, 100, 255]\<rparr> \<and>
   step demoPaint demoEditor (Rotate CW) =
     Inr \<lparr>rotation = 90, scale = 100, bgRemoveMode = True, tolerance = 30,
          history = [\<lparr>width = 1, height = 2, data = [100, 100, 100, 255, 100, 100, 100, 255]\<rparr>],
          originalImage = Some demoImage,
          canvas = Some \<lparr>width = 1, height = 2,
                         data = [100, 100, 100, 255, 100, 100, 100, 255]\<rparr>\<rparr> \<and>
   step demoPaint
       \<lparr>rotation = 90, scale = 100, bgRemoveMode = True, tolerance = 30,
        history = [\<lparr>width = 1, height = 2, data = [100, 100, 100, 255, 100, 100, 100, 255]\<rparr>],
        originalImage = Some demoImage,
        canvas = Some \<lparr>width = 1, height = 2,
                       data = [100, 100, 100, 255, 100, 100, 100, 255]\<rparr>\<rparr> Undo =
     Inr \<lparr>rotation = 90, scale = 100, bgRemoveMode = True, tolerance = 30,
          history = [\<lparr>width = 1, height = 2, data = [100, 100, 100, 255, 100, 100, 100, 255]\<rparr>],
          originalImage = Some demoImage,
          canvas = Some \<lparr>width = 1, height = 2,
                         data = [100, 100, 100, 255, 100, 100, 100, 255]\<rparr>\<rparr>"
proof -
  have c: "canvas demoEditor = Some demoBuffer" by (simp add: demoEditor_def)
  have i: "originalImage demoEditor = Some demoImage" by (simp add: demoEditor_def)
  have h: "history demoEditor = [demoBuffer, demoBuffer]" by (simp add: demoEditor_def)
  then have hne: "history demoEditor \<noteq> []" by simp
  have e: "Rotate CW = Rotate CW \<or> Rotate CW = Scale 50" by simp
  have w: "0 < width (drawn demoPaint demoImage
                 (rotation (leaves (step demoPaint demoEditor (Rotate CW))))
                 (scale (leaves (step demoPaint demoEditor (Rotate CW)))))"
    and g: "0 < height (drawn demoPaint demoImage
                 (rotation (leaves (step demoPaint demoEditor (Rotate CW))))
                 (scale (leaves (step demoPaint demoEditor (Rotate CW)))))"
    by (simp_all only: demo_rotate leaves.simps editor.simps demo_drawn_rotated ImageData.simps)
  from geometry_change_resets_history[OF c i hne e w g] c i h demo_drawn_rotated
  show ?thesis by (simp only: demo_rotate leaves.simps)
qed

text \<open>
  C8: with at most one entry in the history, undo returns the state as it is and throws
  no error, also when it is called a second time.
\<close>

theorem undo_on_baseline_is_noop:
  assumes "length (history st) \<le> 1"
  shows "handleUndo st = st \<and> step paint st Undo = Inr st \<and>
         run paint st [Undo, Undo] = Inr st"
proof -
  have 1: "handleUndo st = st" and 2: "step paint st Undo = Inr st"
    using assms by (rule undo_short_history)+
  have "run paint st [Undo, Undo] = Inr st"
    by (simp add: 2 del: step.simps)
  with 1 2 show ?thesis by simp
qed

theorem undo_on_baseline_is_noop_witness:
  "length (history (demoEditor\<lparr>history := [demoBuffer]\<rparr>)) \<le> 1 \<and>
   handleUndo (demoEditor\<lparr>history := [demoBuffer]\<rparr>) = demoEditor\<lparr>history := [demoBuffer]\<rparr> \<and>
   step demoPaint (demoEditor\<lparr>history := [demoBuffer]\<rparr>) Undo =
     Inr (demoEditor\<lparr>history := [demoBuffer]\<rparr>) \<and>
   run demoPaint (demoEditor\<lparr>history := [demoBuffer]\<rparr>) [Undo, Undo] =
     Inr (demoEditor\<lparr>history := [demoBuffer]\<rparr>)"
proof -
  have l: "length (history (demoEditor\<lparr>history := [demoBuffer]\<rparr>)) \<le> 1" by simp
  from undo_on_baseline_is_noop[OF l, of demoPaint] l show ?thesis by blast
qed

text \<open>
  The handler on its own: whatever the seed, \<open>floodFill\<close> appends the canvas as it was
  before the fill to the history. Right after the handler, and before the effect runs,
  the last entry of the history is therefore the buffer of before the click.
\<close>

theorem floodFill_pushes_previous_canvas:
  assumes "canvas st = Some c"
  shows "history (floodFill x y st) = history st @ [c]"
proof -
  from floodFill_shape[OF assms] obtain c' where
    "floodFill x y st = st\<lparr>history := history st @ [c], canvas := Some c'\<rparr>" by blast
  then show ?thesis by simp
qed

theorem floodFill_pushes_previous_canvas_witness:
  "canvas demoEditor = Some demoBuffer \<and>
   history (floodFill 0 0 demoEditor) = history demoEditor @ [demoBuffer]"
proof -
  have c: "canvas demoEditor = Some demoBuffer" by (simp add: demoEditor_def)
  from floodFill_pushes_previous_canvas[OF c] c show ?thesis by blast
qed

text \<open>
  A click in a session: the handler's fill changes the canvas, but the history is one
  entry longer afterwards, so the effect calls \<open>renderCanvas\<close>, which draws the image
  anew. After the event the canvas is what it was before the click, and the history has
  one more copy of it.
\<close>

theorem click_fill_is_redrawn:
  assumes "canvas st0 = Some c0" and "originalImage st0 \<noteq> Some img"
    and "session paint st0 img evs = Inr s" and "bgRemoveMode s"
  shows "\<exists>B. canvas s = Some B \<and>
           step paint s (Click x y) = Inr (s\<lparr>history := history s @ [B]\<rparr>)"
proof -
  have st: "settled paint s" using assms(1-3) by (rule session_settled)
  then obtain B where cv: "canvas s = Some B" by (auto elim: settledD)
  have "step paint s (Click x y) = Inr (s\<lparr>history := history s @ [B]\<rparr>)"
    using st assms(4) cv by (rule click_settled)
  with cv show ?thesis by blast
qed

theorem click_fill_is_redrawn_witness:
  "session demoPaint initialEditor demoImage [SetEraseMode True] =
     Inr (demoEditor\<lparr>history := [demoBuffer]\<rparr>) \<and>
   bgRemoveMode (demoEditor\<lparr>history := [demoBuffer]\<rparr>) \<and>
   canvas (handleCanvasClick 0 0 (demoEditor\<lparr>history := [demoBuffer]\<rparr>)) =
     Some \<lparr>width = 2, height = 1, data = [0, 0, 0, 0, 0, 0, 0, 0]\<rparr> \<and>
   canvas (demoEditor\<lparr>history := [demoBuffer]\<rparr>) = Some demoBuffer \<and>
   step demoPaint (demoEditor\<lparr>history := [demoBuffer]\<rparr>) (Click 0 0) =
     Inr (demoEditor\<lparr>history := [demoBuffer, demoBuffer]\<rparr>)"
proof -
  have c: "canvas initialEditor = Some blankCanvas" by (simp add: initialEditor_def)
  have i: "originalImage initialEditor \<noteq> Some demoImage" by (simp add: initialEditor_def)
  have m: "bgRemoveMode (demoEditor\<lparr>history := [demoBuffer]\<rparr>)" by (simp add: demoEditor_def)
  have b: "canvas (demoEditor\<lparr>history := [demoBuffer]\<rparr>) = Some demoBuffer"
    by (simp add: demoEditor_def)
  from click_fill_is_redrawn[OF c i demo_session m, of 0 0] demo_session m b
    demo_handler_erases
  show ?thesis by simp
qed

section \<open>Seeds that start no fill\<close>

lemma floodLoop_out_of_bounds:
  assumes "x < 0 \<or> int w \<le> x \<or> y < 0 \<or> int h \<le> y"
  shows "floodLoop w h tol target d visited [(x, y)] n = (d, visited, Suc n)"
  using assms by (simp add: floodLoop.simps Let_def)

lemma floodFillData_out_of_bounds:
  assumes "x < 0 \<or> int w \<le> x \<or> y < 0 \<or> int h \<le> y"
  shows "floodFillData w h tol d x y = d"
  using assms by (simp add: floodFillData_def Let_def floodLoop_out_of_bounds)

text \<open>
  Putting back on the canvas the bytes that were read from it changes nothing.
\<close>

lemma putImageData_same: "putImageData c c = c"
proof -
  have "map (\<lambda>i. data c ! i) [0..<length (data c)] = data c" by (rule map_nth)
  then show ?thesis by (simp add: putImageData_def madeTransparent_def)
qed

lemma floodFill_out_of_bounds:
  assumes "canvas st = Some c"
    and "x < 0 \<or> int (width c) \<le> x \<or> y < 0 \<or> int (height c) \<le> y"
  shows "floodFill x y st = st\<lparr>history := history st @ [c]\<rparr>"
proof -
  have d: "floodFillData (width c) (height c) (tolerance st) (data c) x y = data c"
    using assms(2) by (rule floodFillData_out_of_bounds)
  have s: "st\<lparr>history := history st @ [c], canvas := Some c\<rparr> = st\<lparr>history := history st @ [c]\<rparr>"
    using assms(1) by simp
  show ?thesis
    using assms(1) by (simp add: floodFill_def Let_def d putImageData_same s)
qed

text \<open>
  C3: a seed inside the buffer whose alpha is 0 leaves every byte of the canvas as it
  is. \<open>floodFill\<close> has appended the snapshot of the canvas to the history before it
  tests the seed (line 108 comes before line 115), so the history is one entry longer
  and not unchanged, as the example of a single transparent pixel shows.
\<close>

theorem transparent_seed_keeps_buffer_pushes_history:
  assumes "canvas st = Some c"
    and "0 \<le> x" and "x < int (width c)" and "0 \<le> y" and "y < int (height c)"
    and "rd (data c) ((y * int (width c) + x) * 4 + 3) = Some 0"
  shows "floodFill x y st = st\<lparr>history := history st @ [c]\<rparr>"
  using assms(1,6) by (simp add: floodFill_def Let_def)

theorem transparent_seed_keeps_buffer_pushes_history_witness:
  "canvas (initialEditor\<lparr>history := [blankCanvas]\<rparr>) = Some blankCanvas \<and>
   (0::int) \<le> 0 \<and> 0 < int (width blankCanvas) \<and> 0 < int (height blankCanvas) \<and>
   rd (data blankCanvas) ((0 * int (width blankCanvas) + 0) * 4 + 3) = Some 0 \<and>
   floodFill 0 0 (initialEditor\<lparr>history := [blankCanvas]\<rparr>) =
     initialEditor\<lparr>history := [blankCanvas, blankCanvas]\<rparr>"
proof -
  have c: "canvas (initialEditor\<lparr>history := [blankCanvas]\<rparr>) = Some blankCanvas"
    by (simp add: initialEditor_def)
  have b: "(0::int) \<le> 0" "0 < int (width blankCanvas)" "0 < int (height blankCanvas)"
    by (simp_all add: blankCanvas_def)
  have a: "rd (data blankCanvas) ((0 * int (width blankCanvas) + 0) * 4 + 3) = Some 0"
    by (simp add: blankCanvas_def rd_def)
  from transparent_seed_keeps_buffer_pushes_history[OF c b(1) b(2) b(1) b(3) a] c b a
  show ?thesis by simp
qed

theorem transparent_seed_history_counterexample:
  "rd (data blankCanvas) ((0 * int (width blankCanvas) + 0) * 4 + 3) = Some 0 \<and>
   canvas (initialEditor\<lparr>history := [blankCanvas]\<rparr>) = Some blankCanvas \<and>
   history (floodFill 0 0 (initialEditor\<lparr>history := [blankCanvas]\<rparr>))
     \<noteq> history (initialEditor\<lparr>history := [blankCanvas]\<rparr>)"
  by (simp add: floodFill_def Let_def initialEditor_def blankCanvas_def rd_def)

text \<open>
  C9: a seed outside the buffer raises no error. The loop pops it, finds it out of
  bounds and ends, so the canvas keeps every byte; the snapshot has been appended to the
  history before, so the history is one entry longer.
\<close>

theorem out_of_bounds_seed_keeps_buffer_pushes_history:
  assumes "canvas st = Some c"
    and "x < 0 \<or> int (width c) \<le> x \<or> y < 0 \<or> int (height c) \<le> y"
  shows "floodFill x y st = st\<lparr>history := history st @ [c]\<rparr>"
  using assms by (rule floodFill_out_of_bounds)

theorem out_of_bounds_seed_keeps_buffer_pushes_history_witness:
  "canvas demoEditor = Some demoBuffer \<and> int (width demoBuffer) \<le> 2 \<and>
   floodFill 2 0 demoEditor = demoEditor\<lparr>history := [demoBuffer, demoBuffer, demoBuffer]\<rparr>"
proof -
  have c: "canvas demoEditor = Some demoBuffer" by (simp add: demoEditor_def)
  have w: "int (width demoBuffer) \<le> 2" by (simp add: demoBuffer_def)
  then have b: "(2::int) < 0 \<or> int (width demoBuffer) \<le> 2 \<or> (0::int) < 0 \<or> int (height demoBuffer) \<le> 0"
    by simp
  have h: "history demoEditor = [demoBuffer, demoBuffer]" by (simp add: demoEditor_def)
  from out_of_bounds_seed_keeps_buffer_pushes_history[OF c b] c w h
  show ?thesis by simp
qed

theorem out_of_bounds_seed_history_counterexample:
  "int (width demoBuffer) \<le> 2 \<and> canvas demoEditor = Some demoBuffer \<and>
   history (floodFill 2 0 demoEditor) \<noteq> history demoEditor"
  by (simp add: floodFill_def Let_def demoEditor_def demoBuffer_def rd_def)

section \<open>The size of the canvas\<close>

text \<open>
  C6: \<open>renderCanvas\<close> rounds nothing. The canvas takes the scaled width and height,
  computed in double precision, without their fraction, and swaps them for a rotation of
  90 or 270 degrees; it has this size also where \<open>getImageData\<close> throws afterwards. An
  image of 5 by 5 pixels at 30 percent is scaled to 1.5 by 1.5: the canvas is 1 by 1,
  where rounding half up gives 2 by 2.
\<close>

theorem canvas_size_truncates:
  assumes "canvas st = Some c" and "originalImage st = Some img"
    and "rotation st \<in> {0, 90, 180, 270}" and "30 \<le> scale st" and "scale st \<le> 200"
  shows "\<exists>b. canvas (leaves (renderCanvas paint st)) = Some b \<and>
           width b = nat \<lfloor>(if rotation st = 90 \<or> rotation st = 270
                               then snd (scaledSize img (scale st))
                               else fst (scaledSize img (scale st)))\<rfloor> \<and>
           height b = nat \<lfloor>(if rotation st = 90 \<or> rotation st = 270
                                then fst (scaledSize img (scale st))
                                else snd (scaledSize img (scale st)))\<rfloor> \<and>
           fst (scaledSize img (scale st)) =
             toDouble (of_nat (imgWidth img) * toDouble (of_nat (scale st) / 100)) \<and>
           snd (scaledSize img (scale st)) =
             toDouble (of_nat (imgHeight img) * toDouble (of_nat (scale st) / 100))"
proof -
  have "canvas (leaves (renderCanvas paint st)) =
          Some (drawn paint img (rotation st) (scale st))"
    using assms(1,2) by (simp add: renderCanvas_def Let_def)
  then show ?thesis
    by (simp add: drawn_def canvasSize_def scaledSize_def toUnsignedLong_def
        Let_def split: prod.splits)
qed

theorem canvas_size_truncates_witness:
  "canvas demoEditor = Some demoBuffer \<and> originalImage demoEditor = Some demoImage \<and>
   rotation demoEditor \<in> {0, 90, 180, 270} \<and> 30 \<le> scale demoEditor \<and>
   scale demoEditor \<le> 200 \<and>
   (\<exists>b. canvas (leaves (renderCanvas demoPaint demoEditor)) = Some b \<and>
           width b = nat \<lfloor>(if rotation demoEditor = 90 \<or> rotation demoEditor = 270
                               then snd (scaledSize demoImage (scale demoEditor))
                               else fst (scaledSize demoImage (scale demoEditor)))\<rfloor> \<and>
           height b = nat \<lfloor>(if rotation demoEditor = 90 \<or> rotation demoEditor = 270
                                then fst (scaledSize demoImage (scale demoEditor))
                                else snd (scaledSize demoImage (scale demoEditor)))\<rfloor> \<and>
           fst (scaledSize demoImage (scale demoEditor)) =
             toDouble (of_nat (imgWidth demoImage) * toDouble (of_nat (scale demoEditor) / 100)) \<and>
           snd (scaledSize demoImage (scale demoEditor)) =
             toDouble (of_nat (imgHeight demoImage) * toDouble (of_nat (scale demoEditor) / 100)))"
proof -
  have c: "canvas demoEditor = Some demoBuffer" by (simp add: demoEditor_def)
  have i: "originalImage demoEditor = Some demoImage" by (simp add: demoEditor_def)
  have r: "rotation demoEditor \<in> {0, 90, 180, 270}" by (simp add: demoEditor_def)
  have s1: "30 \<le> scale demoEditor" by (simp add: demoEditor_def)
  have s2: "scale demoEditor \<le> 200" by (simp add: demoEditor_def)
  from canvas_size_truncates[OF c i r s1 s2, of demoPaint] c i r s1 s2
  show ?thesis by blast
qed

theorem canvas_size_round_half_up_counterexample:
  "width (drawn demoPaint \<lparr>objId = 0, imgWidth = 5, imgHeight = 5\<rparr> 0 30) = 1 \<and>
   height (drawn demoPaint \<lparr>objId = 0, imgWidth = 5, imgHeight = 5\<rparr> 0 30) = 1 \<and>
   specCanvasSize 5 5 0 30 = (2, 2)"
proof -
  have 1: "canvasSize \<lparr>objId = 0, imgWidth = 5, imgHeight = 5\<rparr> 0 30 = (1, 1)"
    by code_simp
  have 2: "specCanvasSize 5 5 0 30 = (2, 2)"
    by (simp add: specCanvasSize_def roundHalfUp_def Let_def)
  have 3: "width (drawn demoPaint \<lparr>objId = 0, imgWidth = 5, imgHeight = 5\<rparr> 0 30) = 1"
    "height (drawn demoPaint \<lparr>objId = 0, imgWidth = 5, imgHeight = 5\<rparr> 0 30) = 1"
    by (simp_all add: drawn_def 1 split: prod.splits)
  from 2 3 show ?thesis by simp
qed

section \<open>The flood fill\<close>

subsection \<open>Positions of pixels\<close>

lemma pixelPos_range:
  assumes "inBounds w h p"
  shows "0 \<le> pixelPos w p" and "pixelPos w p < int (w * h)"
proof -
  from assms have x: "0 \<le> fst p" "fst p < int w" and y: "0 \<le> snd p" "snd p \<le> int h - 1"
    by (auto simp: inBounds_def)
  show "0 \<le> pixelPos w p" using x y by (simp add: pixelPos_def)
  have "snd p * int w \<le> (int h - 1) * int w"
    using y by (intro mult_right_mono) auto
  then show "pixelPos w p < int (w * h)"
    using x by (simp add: pixelPos_def algebra_simps)
qed

lemma pixelPos_inj:
  assumes "inBounds w h p" "inBounds w h q" "pixelPos w p = pixelPos w q"
  shows "p = q"
proof -
  from assms(1) have p: "0 \<le> fst p" "fst p < int w" by (auto simp: inBounds_def)
  from assms(2) have q: "0 \<le> fst q" "fst q < int w" by (auto simp: inBounds_def)
  have dp: "(snd p * int w + fst p) div int w = snd p"
    using p by (simp add: div_pos_pos_trivial)
  have dq: "(snd q * int w + fst q) div int w = snd q"
    using q by (simp add: div_pos_pos_trivial)
  from assms(3) dp dq have s: "snd p = snd q" by (simp add: pixelPos_def)
  with assms(3) have "fst p = fst q" by (simp add: pixelPos_def)
  with s show ?thesis by (simp add: prod_eq_iff)
qed

lemma marked_update:
  assumes "inBounds w h p" "length V = w * h"
  shows "marked w h (V[nat (pixelPos w p) := True]) = insert p (marked w h V)"
proof -
  have r: "nat (pixelPos w p) < length V"
    using pixelPos_range[OF assms(1)] assms(2) by linarith
  have "q \<in> marked w h (V[nat (pixelPos w p) := True]) \<longleftrightarrow> q \<in> insert p (marked w h V)" for q
  proof (cases "inBounds w h q")
    case False
    then show ?thesis using assms(1) by (auto simp: marked_def)
  next
    case True
    have "nat (pixelPos w q) = nat (pixelPos w p) \<longleftrightarrow> q = p"
      using pixelPos_inj[OF True assms(1)] pixelPos_range(1)[OF True] pixelPos_range(1)[OF assms(1)]
      by auto
    then show ?thesis using True r by (auto simp: marked_def nth_list_update)
  qed
  then show ?thesis by blast
qed

lemma isSet_marked:
  assumes "inBounds w h p" "length V = w * h"
  shows "isSet V (pixelPos w p) \<longleftrightarrow> p \<in> marked w h V"
  using pixelPos_range[OF assms(1)] assms by (simp add: isSet_def marked_def)

subsection \<open>The stack and the reachable set\<close>

lemma reach_empty: "\<not> ok seed \<Longrightarrow> reach ok seed = {}"
proof -
  assume n: "\<not> ok seed"
  have "p \<in> reach ok seed \<Longrightarrow> False" for p
    by (induction rule: reach.induct) (use n in auto)
  then show ?thesis by blast
qed

lemma reach_ok: "p \<in> reach ok seed \<Longrightarrow> ok p"
  by (induction rule: reach.induct) auto

lemma fillInv_init: "fillInv ok seed {} [seed]"
  by (auto simp: fillInv_def intro: reach_seed)

lemma fillInv_skip:
  assumes "fillInv ok seed S (p # stack)" "\<not> ok p \<or> p \<in> S"
  shows "fillInv ok seed S stack"
  using assms unfolding fillInv_def by (auto; metis)

lemma fillInv_mark:
  assumes "fillInv ok seed S ((x, y) # stack)" "ok (x, y)"
  shows "fillInv ok seed (insert (x, y) S)
           ((x, y - 1) # (x, y + 1) # (x - 1, y) # (x + 1, y) # stack)"
proof -
  have pr: "(x, y) \<in> reach ok seed" using assms by (simp add: fillInv_def)
  have n: "neighbours4 (x, y) = {(x, y - 1), (x, y + 1), (x - 1, y), (x + 1, y)}"
    by (auto simp: neighbours4_def)
  have nr: "q \<in> neighbours4 (x, y) \<Longrightarrow> ok q \<Longrightarrow> q \<in> reach ok seed" for q
    using pr by (rule reach_neighbour)
  show ?thesis
    unfolding fillInv_def
  proof (intro conjI)
    show "insert (x, y) S \<subseteq> reach ok seed" using assms pr by (simp add: fillInv_def)
    show "\<forall>p\<in>set ((x, y - 1) # (x, y + 1) # (x - 1, y) # (x + 1, y) # stack). ok p \<longrightarrow> p \<in> reach ok seed"
      using assms(1) nr n by (auto simp: fillInv_def)
    show "\<forall>p\<in>insert (x, y) S. \<forall>q\<in>neighbours4 p. ok q \<longrightarrow>
            q \<in> insert (x, y) S \<or> q \<in> set ((x, y - 1) # (x, y + 1) # (x - 1, y) # (x + 1, y) # stack)"
    proof (intro ballI impI)
      fix p q assume p: "p \<in> insert (x, y) S" and q: "q \<in> neighbours4 p" and o: "ok q"
      show "q \<in> insert (x, y) S \<or> q \<in> set ((x, y - 1) # (x, y + 1) # (x - 1, y) # (x + 1, y) # stack)"
      proof (cases "p = (x, y)")
        case True
        then show ?thesis using q n by auto
      next
        case False
        with p have "p \<in> S" by simp
        with assms(1) q o have "q \<in> S \<or> q \<in> set ((x, y) # stack)"
          by (auto simp: fillInv_def)
        then show ?thesis by auto
      qed
    qed
    show "ok seed \<longrightarrow> seed \<in> insert (x, y) S \<or>
            seed \<in> set ((x, y - 1) # (x, y + 1) # (x - 1, y) # (x + 1, y) # stack)"
      using assms(1) by (auto simp: fillInv_def)
  qed
qed

lemma fillInv_done:
  assumes "fillInv ok seed S []"
  shows "S = reach ok seed"
proof
  show "S \<subseteq> reach ok seed" using assms by (simp add: fillInv_def)
  show "reach ok seed \<subseteq> S"
  proof
    fix p assume "p \<in> reach ok seed"
    then show "p \<in> S"
    proof (induction rule: reach.induct)
      case reach_seed
      then show ?case using assms by (simp add: fillInv_def)
    next
      case (reach_neighbour p q)
      then show ?case using assms by (auto simp: fillInv_def)
    qed
  qed
qed

subsection \<open>The data and the visited array\<close>

lemma rd_dataRel:
  assumes "dataRel w h d0 d V"
  shows "rd d i =
           (if 0 \<le> i \<and> i < int (length d0)
            then Some (if \<exists>p \<in> marked w h V. i = pixelPos w p * 4 + 3 then 0 else d0 ! nat i)
            else None)"
proof (cases "0 \<le> i \<and> i < int (length d0)")
  case True
  then have j: "nat i < length d0" "int (nat i) = i" by auto
  from assms have "d ! nat i =
      (if \<exists>p \<in> marked w h V. int (nat i) = pixelPos w p * 4 + 3 then 0 else d0 ! nat i)"
    using j(1) by (simp add: dataRel_def)
  moreover from assms have "length d = length d0" by (simp add: dataRel_def)
  ultimately show ?thesis using True j by (simp add: rd_def)
next
  case False
  moreover from assms have "length d = length d0" by (simp add: dataRel_def)
  ultimately show ?thesis by (auto simp: rd_def)
qed

lemma rd_unmarked:
  assumes "dataRel w h d0 d V" "inBounds w h p" "p \<notin> marked w h V" "0 \<le> k" "k \<le> 3"
  shows "rd d (pixelPos w p * 4 + k) = rd d0 (pixelPos w p * 4 + k)"
proof -
  have "\<not> (\<exists>q \<in> marked w h V. pixelPos w p * 4 + k = pixelPos w q * 4 + 3)"
  proof
    assume "\<exists>q \<in> marked w h V. pixelPos w p * 4 + k = pixelPos w q * 4 + 3"
    then obtain q where q: "q \<in> marked w h V" "pixelPos w p * 4 + k = pixelPos w q * 4 + 3"
      by blast
    from q(2) assms(4,5) have "pixelPos w p = pixelPos w q" by presburger
    moreover from q(1) have "inBounds w h q" by (simp add: marked_def)
    ultimately have "p = q" using assms(2) by (intro pixelPos_inj)
    with q(1) assms(3) show False by simp
  qed
  with rd_dataRel[OF assms(1), of "pixelPos w p * 4 + k"]
  have "rd d (pixelPos w p * 4 + k) =
          (if 0 \<le> pixelPos w p * 4 + k \<and> pixelPos w p * 4 + k < int (length d0)
           then Some (d0 ! nat (pixelPos w p * 4 + k)) else None)"
    by simp
  then show ?thesis by (simp add: rd_def)
qed

lemma matches_unmarked:
  assumes "dataRel w h d0 d V" "inBounds w h p" "p \<notin> marked w h V"
  shows "matches d target tol (pixelPos w p * 4) = matches d0 target tol (pixelPos w p * 4)"
proof -
  have 0: "rd d (pixelPos w p * 4) = rd d0 (pixelPos w p * 4)"
    using rd_unmarked[OF assms, of 0] by simp
  have 1: "rd d (pixelPos w p * 4 + 1) = rd d0 (pixelPos w p * 4 + 1)"
    using rd_unmarked[OF assms, of 1] by simp
  have 2: "rd d (pixelPos w p * 4 + 2) = rd d0 (pixelPos w p * 4 + 2)"
    using rd_unmarked[OF assms, of 2] by simp
  have 3: "rd d (pixelPos w p * 4 + 3) = rd d0 (pixelPos w p * 4 + 3)"
    using rd_unmarked[OF assms, of 3] by simp
  show ?thesis by (simp add: matches_def 0 1 2 3)
qed

lemma dataRel_mark:
  assumes "dataRel w h d0 d V" "inBounds w h p" "matches d target tol (pixelPos w p * 4)"
  shows "dataRel w h d0 (d[nat (pixelPos w p * 4 + 3) := 0]) (V[nat (pixelPos w p) := True])"
proof -
  let ?i = "nat (pixelPos w p * 4 + 3)"
  from assms(1) have len: "length V = w * h" "length d = length d0"
    and dj: "\<And>j. j < length d0 \<Longrightarrow>
      d ! j = (if \<exists>q \<in> marked w h V. int j = pixelPos w q * 4 + 3 then 0 else d0 ! j)"
    by (simp_all add: dataRel_def)
  have m: "marked w h (V[nat (pixelPos w p) := True]) = insert p (marked w h V)"
    using assms(2) len(1) by (rule marked_update)
  from assms(3) have "positive (rd d (pixelPos w p * 4 + 3))"
    by (simp add: matches_def split: prod.splits)
  then have i: "?i < length d" "0 \<le> pixelPos w p * 4 + 3"
    by (auto simp: positive_def rd_def split: if_splits option.splits)
  have "d[?i := 0] ! j =
      (if \<exists>q \<in> insert p (marked w h V). int j = pixelPos w q * 4 + 3 then 0 else d0 ! j)"
    if j: "j < length d0" for j
  proof (cases "j = ?i")
    case True
    then have "int j = pixelPos w p * 4 + 3" using i(2) by simp
    then show ?thesis using True i(1) by auto
  next
    case False
    then have "int j \<noteq> pixelPos w p * 4 + 3" by auto
    then have "(\<exists>q \<in> insert p (marked w h V). int j = pixelPos w q * 4 + 3) \<longleftrightarrow>
               (\<exists>q \<in> marked w h V. int j = pixelPos w q * 4 + 3)" by auto
    then show ?thesis using False dj[OF j] by simp
  qed
  then show ?thesis using len by (simp add: dataRel_def m)
qed

lemma floodLoop_inv:
  "dataRel w h d0 d V \<Longrightarrow>
   fillInv (okPixel w h d0 target tol) seed (marked w h V) stack \<Longrightarrow>
   floodLoop w h tol target d V stack n = (d', V', n') \<Longrightarrow>
   dataRel w h d0 d' V' \<and> marked w h V' = reach (okPixel w h d0 target tol) seed"
proof (induction w h tol target d V stack n rule: floodLoop.induct)
  case (1 w h tol target d visited n)
  then show ?case by (simp add: floodLoop.simps fillInv_done)
next
  case (2 w h tol target d visited x y stack n)
  let ?ok = "okPixel w h d0 target tol"
  have pos: "pixelPos w (x, y) = y * int w + x" by (simp add: pixelPos_def)
  have ib: "inBounds w h (x, y) \<longleftrightarrow> \<not> (x < 0 \<or> int w \<le> x \<or> y < 0 \<or> int h \<le> y)"
    by (auto simp: inBounds_def)
  from "2.prems"(1) have lenV: "length visited = w * h" by (simp add: dataRel_def)
  show ?case
  proof (cases "x < 0 \<or> int w \<le> x \<or> y < 0 \<or> int h \<le> y")
    case True
    then have "\<not> ?ok (x, y)" by (simp add: okPixel_def ib)
    then have inv: "fillInv ?ok seed (marked w h visited) stack"
      using "2.prems"(2) fillInv_skip by blast
    have "floodLoop w h tol target d visited ((x, y) # stack) n =
          floodLoop w h tol target d visited stack (Suc n)"
      using True by (simp add: floodLoop.simps)
    with "2.prems"(3) have "floodLoop w h tol target d visited stack (Suc n) = (d', V', n')"
      by simp
    with "2.IH"(1)[OF refl True "2.prems"(1) inv] show ?thesis by simp
  next
    case False
    then have inb: "inBounds w h (x, y)" by (simp add: ib)
    show ?thesis
    proof (cases "isSet visited (y * int w + x)")
      case True
      then have "(x, y) \<in> marked w h visited"
        using isSet_marked[OF inb lenV] by (simp add: pos)
      then have inv: "fillInv ?ok seed (marked w h visited) stack"
        using "2.prems"(2) fillInv_skip by blast
      have "floodLoop w h tol target d visited ((x, y) # stack) n =
            floodLoop w h tol target d visited stack (Suc n)"
        using False True by (simp add: floodLoop.simps)
      with "2.prems"(3) have "floodLoop w h tol target d visited stack (Suc n) = (d', V', n')"
        by simp
      with "2.IH"(2)[OF refl False True "2.prems"(1) inv] show ?thesis by simp
    next
      case unset: False
      then have nm: "(x, y) \<notin> marked w h visited"
        using isSet_marked[OF inb lenV] by (simp add: pos)
      have meq: "matches d target tol ((y * int w + x) * 4) =
                 matches d0 target tol ((y * int w + x) * 4)"
        using matches_unmarked[OF "2.prems"(1) inb nm] by (simp add: pos)
      show ?thesis
      proof (cases "matches d target tol ((y * int w + x) * 4)")
        case nomatch: False
        then have "\<not> ?ok (x, y)" using meq by (simp add: okPixel_def pos)
        then have inv: "fillInv ?ok seed (marked w h visited) stack"
          using "2.prems"(2) fillInv_skip by blast
        have "floodLoop w h tol target d visited ((x, y) # stack) n =
              floodLoop w h tol target d visited stack (Suc n)"
          using False unset nomatch by (simp add: floodLoop.simps)
        with "2.prems"(3) have "floodLoop w h tol target d visited stack (Suc n) = (d', V', n')"
          by simp
        with "2.IH"(3)[OF refl False unset refl nomatch "2.prems"(1) inv] show ?thesis by simp
      next
        case True
        then have ok: "?ok (x, y)" using meq inb by (simp add: okPixel_def pos)
        have nn: "\<not> \<not> matches d target tol ((y * int w + x) * 4)" using True by simp
        have dr: "dataRel w h d0 (d[nat ((y * int w + x) * 4 + 3) := 0])
                    (visited[nat (y * int w + x) := True])"
          using dataRel_mark[OF "2.prems"(1) inb, of target tol] True by (simp add: pos)
        have mk: "marked w h (visited[nat (y * int w + x) := True]) =
                  insert (x, y) (marked w h visited)"
          using marked_update[OF inb lenV] by (simp add: pos)
        have inv: "fillInv ?ok seed (marked w h (visited[nat (y * int w + x) := True]))
                     ((x, y - 1) # (x, y + 1) # (x - 1, y) # (x + 1, y) # stack)"
          unfolding mk using "2.prems"(2) ok by (rule fillInv_mark)
        have "floodLoop w h tol target d visited ((x, y) # stack) n =
              floodLoop w h tol target (d[nat ((y * int w + x) * 4 + 3) := 0])
                (visited[nat (y * int w + x) := True])
                ((x, y - 1) # (x, y + 1) # (x - 1, y) # (x + 1, y) # stack) (Suc n)"
          using False unset True by (subst floodLoop.simps) (simp add: Let_def)
        with "2.prems"(3) have
          "floodLoop w h tol target (d[nat ((y * int w + x) * 4 + 3) := 0])
                (visited[nat (y * int w + x) := True])
                ((x, y - 1) # (x, y + 1) # (x - 1, y) # (x + 1, y) # stack) (Suc n) = (d', V', n')"
          by simp
        with "2.IH"(4)[OF refl False unset refl nn dr inv] show ?thesis by simp
      qed
    qed
  qed
qed

subsection \<open>The fill from a seed inside the buffer\<close>

lemma marked_init: "marked w h (replicate (w * h) False) = {}"
proof -
  have "p \<notin> marked w h (replicate (w * h) False)" for p
  proof
    assume "p \<in> marked w h (replicate (w * h) False)"
    then have i: "inBounds w h p" and v: "replicate (w * h) False ! nat (pixelPos w p)"
      by (simp_all add: marked_def)
    from pixelPos_range[OF i] have "nat (pixelPos w p) < w * h" by linarith
    with v show False by simp
  qed
  then show ?thesis by blast
qed

lemma dataRel_init: "dataRel w h d0 d0 (replicate (w * h) False)"
  by (simp add: dataRel_def marked_init)

lemma floodFillData_rel:
  "\<exists>V'. dataRel w h d0 (floodFillData w h tol d0 x y) V' \<and>
     marked w h V' =
       reach (okPixel w h d0
                (rd d0 ((y * int w + x) * 4), rd d0 ((y * int w + x) * 4 + 1),
                 rd d0 ((y * int w + x) * 4 + 2)) tol) (x, y)"
proof -
  let ?target = "(rd d0 ((y * int w + x) * 4), rd d0 ((y * int w + x) * 4 + 1),
                 rd d0 ((y * int w + x) * 4 + 2))"
  obtain d' V' n' where r: "floodLoop w h tol ?target d0 (replicate (w * h) False) [(x, y)] 0 = (d', V', n')"
    using prod_cases3 by blast
  have i: "fillInv (okPixel w h d0 ?target tol) (x, y) (marked w h (replicate (w * h) False)) [(x, y)]"
    by (simp only: marked_init fillInv_init)
  from floodLoop_inv[OF dataRel_init i r]
  have "dataRel w h d0 d' V' \<and> marked w h V' = reach (okPixel w h d0 ?target tol) (x, y)" .
  moreover have "floodFillData w h tol d0 x y = d'"
    by (simp only: floodFillData_def Let_def r fst_conv)
  ultimately show ?thesis by blast
qed

lemma rd_pixel:
  assumes "wellFormed c" "inBounds (width c) (height c) p" "k < 4"
  shows "rd (data c) (pixelPos (width c) p * 4 + int k) = Some (channel c p k)"
proof -
  from pixelPos_range[OF assms(2)] have r: "0 \<le> pixelPos (width c) p"
    "pixelPos (width c) p < int (width c * height c)" by auto
  then have "pixelPos (width c) p * 4 + int k < int (4 * width c * height c)"
    using assms(3) by simp
  moreover have "nat (pixelPos (width c) p * 4 + int k) = 4 * nat (pixelPos (width c) p) + k"
    using r(1) by (simp add: nat_add_distrib nat_mult_distrib)
  ultimately show ?thesis using assms(1) r(1) by (simp add: rd_def channel_def wellFormed_def)
qed

lemma okPixel_similar:
  assumes "wellFormed c" "inBounds (width c) (height c) (x, y)"
  shows "okPixel (width c) (height c) (data c)
           (rd (data c) ((y * int (width c) + x) * 4), rd (data c) ((y * int (width c) + x) * 4 + 1),
            rd (data c) ((y * int (width c) + x) * 4 + 2)) tol
         = similar c tol (x, y)"
proof
  fix p
  let ?w = "width c"
  have t0: "rd (data c) ((y * int ?w + x) * 4) = Some (channel c (x, y) 0)"
    using rd_pixel[OF assms, of 0] by (simp add: pixelPos_def)
  have t1: "rd (data c) ((y * int ?w + x) * 4 + 1) = Some (channel c (x, y) 1)"
    using rd_pixel[OF assms, of 1] by (simp add: pixelPos_def)
  have t2: "rd (data c) ((y * int ?w + x) * 4 + 2) = Some (channel c (x, y) 2)"
    using rd_pixel[OF assms, of 2] by (simp add: pixelPos_def)
  show "okPixel ?w (height c) (data c)
           (rd (data c) ((y * int ?w + x) * 4), rd (data c) ((y * int ?w + x) * 4 + 1),
            rd (data c) ((y * int ?w + x) * 4 + 2)) tol p
         = similar c tol (x, y) p"
  proof (cases "inBounds ?w (height c) p")
    case False
    then show ?thesis by (simp add: okPixel_def similar_def)
  next
    case True
    have p0: "rd (data c) (pixelPos ?w p * 4) = Some (channel c p 0)"
      using rd_pixel[OF assms(1) True, of 0] by simp
    have p1: "rd (data c) (pixelPos ?w p * 4 + 1) = Some (channel c p 1)"
      using rd_pixel[OF assms(1) True, of 1] by simp
    have p2: "rd (data c) (pixelPos ?w p * 4 + 2) = Some (channel c p 2)"
      using rd_pixel[OF assms(1) True, of 2] by simp
    have p3: "rd (data c) (pixelPos ?w p * 4 + 3) = Some (channel c p 3)"
      using rd_pixel[OF assms(1) True, of 3] by simp
    show ?thesis
      using True
      by (simp only: okPixel_def similar_def matches_def t0 t1 t2 p0 p1 p2 p3 absWithin_def
            positive_def prod.case option.case) auto
  qed
qed

lemma fill_channels:
  assumes "wellFormed c" "inBounds (width c) (height c) (x, y)"
    and "inBounds (width c) (height c) p" and "k < 4"
  shows "floodFillData (width c) (height c) tol (data c) x y ! (4 * nat (pixelPos (width c) p) + k)
         = (if k = 3 \<and> p \<in> region c tol (x, y) then 0 else channel c p k)"
    and "length (floodFillData (width c) (height c) tol (data c) x y) = length (data c)"
proof -
  let ?w = "width c" and ?h = "height c"
  let ?d' = "floodFillData ?w ?h tol (data c) x y"
  from floodFillData_rel[of ?w ?h "data c" tol x y] obtain V' where
    rel: "dataRel ?w ?h (data c) ?d' V'" and
    mk: "marked ?w ?h V' = reach (okPixel ?w ?h (data c)
                (rd (data c) ((y * int ?w + x) * 4), rd (data c) ((y * int ?w + x) * 4 + 1),
                 rd (data c) ((y * int ?w + x) * 4 + 2)) tol) (x, y)"
    by blast
  have reg: "marked ?w ?h V' = region c tol (x, y)"
    by (simp only: mk okPixel_similar[OF assms(1,2)] region_def)
  from rel show "length ?d' = length (data c)" by (simp add: dataRel_def)
  let ?j = "4 * nat (pixelPos ?w p) + k"
  from pixelPos_range[OF assms(3)] have r: "0 \<le> pixelPos ?w p"
    "nat (pixelPos ?w p) < ?w * ?h" by linarith+
  then have j: "?j < length (data c)"
    using assms(1,4) by (simp add: wellFormed_def)
  have ij: "int ?j = pixelPos ?w p * 4 + int k" using r(1) by simp
  have ex: "(\<exists>q \<in> marked ?w ?h V'. int ?j = pixelPos ?w q * 4 + 3) \<longleftrightarrow>
            (k = 3 \<and> p \<in> marked ?w ?h V')"
  proof
    assume "\<exists>q \<in> marked ?w ?h V'. int ?j = pixelPos ?w q * 4 + 3"
    then obtain q where q: "q \<in> marked ?w ?h V'" "int ?j = pixelPos ?w q * 4 + 3" by blast
    from q(2) ij have "pixelPos ?w p * 4 + int k = pixelPos ?w q * 4 + 3" by simp
    with assms(4) have e: "pixelPos ?w p = pixelPos ?w q" "k = 3" by presburger+
    from q(1) have "inBounds ?w ?h q" by (simp add: marked_def)
    with e(1) assms(3) have "p = q" by (intro pixelPos_inj)
    with q(1) e(2) show "k = 3 \<and> p \<in> marked ?w ?h V'" by simp
  next
    assume "k = 3 \<and> p \<in> marked ?w ?h V'"
    then show "\<exists>q \<in> marked ?w ?h V'. int ?j = pixelPos ?w q * 4 + 3"
      using ij by auto
  qed
  from rel j have "?d' ! ?j =
      (if \<exists>q \<in> marked ?w ?h V'. int ?j = pixelPos ?w q * 4 + 3 then 0 else data c ! ?j)"
    by (simp add: dataRel_def)
  then show "?d' ! ?j = (if k = 3 \<and> p \<in> region c tol (x, y) then 0 else channel c p k)"
    by (simp only: ex[unfolded reg] reg channel_def)
qed

text \<open>
  The bytes after the loop, for any seed: only alpha bytes change, those of the region.
  The region of a seed outside the buffer is empty.
\<close>

lemma region_outside:
  assumes "\<not> inBounds (width c) (height c) seed"
  shows "region c tol seed = {}"
proof -
  from assms have "\<not> similar c tol seed seed" by (simp add: similar_def)
  then show ?thesis by (simp add: region_def reach_empty)
qed

lemma region_alpha:
  assumes "p \<in> region c tol seed"
  shows "inBounds (width c) (height c) p" and "channel c p 3 \<noteq> 0"
proof -
  from assms have "similar c tol seed p" unfolding region_def by (rule reach_ok)
  then show "inBounds (width c) (height c) p" and "channel c p 3 \<noteq> 0"
    by (auto simp: similar_def)
qed

lemma written_channels:
  assumes "wellFormed c" and "inBounds (width c) (height c) p" and "k < 4"
  shows "floodFillData (width c) (height c) tol (data c) x y ! (4 * nat (pixelPos (width c) p) + k)
         = (if k = 3 \<and> p \<in> region c tol (x, y) then 0 else channel c p k)"
    and "length (floodFillData (width c) (height c) tol (data c) x y) = length (data c)"
proof -
  have "floodFillData (width c) (height c) tol (data c) x y ! (4 * nat (pixelPos (width c) p) + k)
         = (if k = 3 \<and> p \<in> region c tol (x, y) then 0 else channel c p k) \<and>
        length (floodFillData (width c) (height c) tol (data c) x y) = length (data c)"
  proof (cases "inBounds (width c) (height c) (x, y)")
    case True
    from fill_channels[OF assms(1) True assms(2,3), of tol] show ?thesis by simp
  next
    case False
    then have "x < 0 \<or> int (width c) \<le> x \<or> y < 0 \<or> int (height c) \<le> y"
      by (auto simp: inBounds_def)
    then have "floodFillData (width c) (height c) tol (data c) x y = data c"
      by (rule floodFillData_out_of_bounds)
    with region_outside[OF False, of tol] show ?thesis by (simp add: channel_def)
  qed
  then show "floodFillData (width c) (height c) tol (data c) x y ! (4 * nat (pixelPos (width c) p) + k)
         = (if k = 3 \<and> p \<in> region c tol (x, y) then 0 else channel c p k)"
    and "length (floodFillData (width c) (height c) tol (data c) x y) = length (data c)"
    by simp_all
qed

text \<open>
  What the canvas reads after \<open>putImageData\<close>: a pixel whose alpha was put as 0 where
  the canvas had another alpha reads 0 in all four bytes, every other pixel reads the
  bytes that were put.
\<close>

lemma putImageData_channels:
  assumes "wellFormed c" and "length d' = length (data c)"
    and "inBounds (width c) (height c) p" and "k < 4"
  shows "channel (putImageData c (c\<lparr>data := d'\<rparr>)) p k =
           (if d' ! (4 * nat (pixelPos (width c) p) + 3) = 0 \<and> channel c p 3 \<noteq> 0 then 0
            else d' ! (4 * nat (pixelPos (width c) p) + k))"
proof -
  define q where "q = nat (pixelPos (width c) p)"
  from pixelPos_range[OF assms(3)] have "q < width c * height c"
    unfolding q_def by linarith
  then have a: "4 * q + 3 < length (data c)"
    using assms(1) by (simp add: wellFormed_def)
  with assms(4) have j: "4 * q + k < length d'" using assms(2) by simp
  have dv: "(4 * q + k) div 4 = q" using assms(4) by simp
  have r1: "rd d' (int (4 * q + 3)) = Some (d' ! (4 * q + 3))"
    using a assms(2) unfolding rd_def by (simp only: nat_int) simp
  have r2: "rd (data c) (int (4 * q + 3)) = Some (data c ! (4 * q + 3))"
    using a unfolding rd_def by (simp only: nat_int) simp
  have m: "madeTransparent (data c) d' q =
             (d' ! (4 * q + 3) = 0 \<and> data c ! (4 * q + 3) \<noteq> 0)"
    by (simp only: madeTransparent_def r1 r2) simp
  have "data (putImageData c (c\<lparr>data := d'\<rparr>)) ! (4 * q + k) =
          map (\<lambda>i. if madeTransparent (data c) d' (i div 4) then 0 else d' ! i)
            [0..<length d'] ! (4 * q + k)"
    by (simp add: putImageData_def cong: if_cong)
  also have "\<dots> = (if madeTransparent (data c) d' ((4 * q + k) div 4) then 0
                    else d' ! (4 * q + k))"
    using j by simp
  finally have "data (putImageData c (c\<lparr>data := d'\<rparr>)) ! (4 * q + k) =
      (if d' ! (4 * q + 3) = 0 \<and> data c ! (4 * q + 3) \<noteq> 0 then 0 else d' ! (4 * q + k))"
    by (simp only: dv m)
  moreover have "width (putImageData c (c\<lparr>data := d'\<rparr>)) = width c"
    by (simp add: putImageData_def)
  ultimately show ?thesis
    by (simp only: channel_def q_def)
qed

lemma floodFill_canvas:
  assumes "canvas st = Some c" and "wellFormed c"
  shows "\<exists>c'. canvas (floodFill x y st) = Some c' \<and> width c' = width c \<and>
           height c' = height c \<and> length (data c') = length (data c) \<and>
           (\<forall>p k. inBounds (width c) (height c) p \<and> k < 4 \<longrightarrow>
              channel c' p k =
                (if p \<in> region c (tolerance st) (x, y) then 0 else channel c p k))"
proof (cases "rd (data c) ((y * int (width c) + x) * 4 + 3) = Some 0")
  case True
  have "\<not> similar c (tolerance st) (x, y) (x, y)"
  proof (cases "inBounds (width c) (height c) (x, y)")
    case inb: True
    have "rd (data c) ((y * int (width c) + x) * 4 + 3) = Some (channel c (x, y) 3)"
      using rd_pixel[OF assms(2) inb, of 3] by (simp add: pixelPos_def)
    with True have "channel c (x, y) 3 = 0" by simp
    then show ?thesis by (simp add: similar_def)
  next
    case False
    then show ?thesis by (simp add: similar_def)
  qed
  then have "region c (tolerance st) (x, y) = {}" by (simp add: region_def reach_empty)
  moreover have "canvas (floodFill x y st) = Some c"
    using assms(1) True by (simp add: floodFill_def Let_def)
  ultimately show ?thesis by simp
next
  case False
  let ?d' = "floodFillData (width c) (height c) (tolerance st) (data c) x y"
  let ?c' = "putImageData c (c\<lparr>data := ?d'\<rparr>)"
  have cv: "canvas (floodFill x y st) = Some ?c'"
    using assms(1) False by (simp add: floodFill_def Let_def)
  have len: "length ?d' = length (data c)"
  proof (cases "inBounds (width c) (height c) (x, y)")
    case True
    from fill_channels(2)[OF assms(2) True True, of 0 "tolerance st"] show ?thesis by simp
  next
    case False
    then have "x < 0 \<or> int (width c) \<le> x \<or> y < 0 \<or> int (height c) \<le> y"
      by (auto simp: inBounds_def)
    then have "?d' = data c" by (rule floodFillData_out_of_bounds)
    then show ?thesis by simp
  qed
  have ch: "channel ?c' p k =
              (if p \<in> region c (tolerance st) (x, y) then 0 else channel c p k)"
    if p: "inBounds (width c) (height c) p" and k: "k < 4" for p k
  proof (cases "p \<in> region c (tolerance st) (x, y)")
    case True
    from written_channels(1)[OF assms(2) p, of 3 "tolerance st" x y] True
    have "?d' ! (4 * nat (pixelPos (width c) p) + 3) = 0" by simp
    with region_alpha(2)[OF True] putImageData_channels[OF assms(2) len p k] True
    show ?thesis by simp
  next
    case False
    from written_channels(1)[OF assms(2) p, of 3 "tolerance st" x y] False
    have "?d' ! (4 * nat (pixelPos (width c) p) + 3) = channel c p 3" by simp
    moreover from written_channels(1)[OF assms(2) p k, of "tolerance st" x y] False
    have "?d' ! (4 * nat (pixelPos (width c) p) + k) = channel c p k" by simp
    ultimately show ?thesis
      using putImageData_channels[OF assms(2) len p k] False by simp
  qed
  have "width ?c' = width c" "height ?c' = height c" "length (data ?c') = length (data c)"
    using len by (simp_all add: putImageData_def)
  with cv ch show ?thesis by simp
qed

lemma floodFill_stripe_example:
  "canvas (floodFill 0 0 stripeEditor) =
     Some \<lparr>width = 3, height = 1,
           data = [0, 0, 0, 0, 0, 0, 0, 0, 200, 0, 0, 255]\<rparr>"
  by code_simp

lemma stripe_written_example:
  "floodFillData 3 1 30 (data stripeBuffer) 0 0 =
     [100, 100, 100, 0, 110, 110, 110, 0, 200, 0, 0, 255]"
  by code_simp

lemma stripe_seed_in_region: "(0, 0) \<in> region stripeBuffer 30 (0, 0)"
  unfolding region_def
  by (rule reach_seed)
     (simp add: similar_def inBounds_def channel_def pixelPos_def stripeBuffer_def)

text \<open>
  C4: for a seed inside the buffer whose alpha is positive, the pixels that the fill
  makes transparent (alpha positive before, 0 after) are exactly the region of the
  specification: the pixels reachable from the seed by steps to the four direct
  neighbours through pixels of positive alpha whose red, green and blue each differ from
  the seed's by at most the tolerance. The seed is one of them.
\<close>

theorem fill_erases_exactly_the_region:
  assumes "canvas st = Some c" and "wellFormed c"
    and "inBounds (width c) (height c) (x, y)" and "0 < uint (channel c (x, y) 3)"
  shows "\<exists>c'. canvas (floodFill x y st) = Some c' \<and> width c' = width c \<and>
           height c' = height c \<and>
           {p. inBounds (width c) (height c) p \<and> 0 < uint (channel c p 3) \<and>
               channel c' p 3 = 0} = region c (tolerance st) (x, y) \<and>
           (x, y) \<in> region c (tolerance st) (x, y)"
proof -
  from floodFill_canvas[OF assms(1,2)] obtain c' where
    cv: "canvas (floodFill x y st) = Some c'" "width c' = width c" "height c' = height c"
    and ch: "\<And>p k. inBounds (width c) (height c) p \<Longrightarrow> k < 4 \<Longrightarrow>
              channel c' p k =
                (if p \<in> region c (tolerance st) (x, y) then 0 else channel c p k)"
    by blast
  have sub: "p \<in> region c (tolerance st) (x, y) \<Longrightarrow> similar c (tolerance st) (x, y) p" for p
    unfolding region_def by (rule reach_ok)
  have "{p. inBounds (width c) (height c) p \<and> 0 < uint (channel c p 3) \<and>
               channel c' p 3 = 0} = region c (tolerance st) (x, y)"
  proof (intro set_eqI iffI)
    fix p
    assume "p \<in> {p. inBounds (width c) (height c) p \<and> 0 < uint (channel c p 3) \<and>
               channel c' p 3 = 0}"
    then have p: "inBounds (width c) (height c) p" "0 < uint (channel c p 3)"
      "channel c' p 3 = 0" by simp_all
    show "p \<in> region c (tolerance st) (x, y)"
    proof (rule ccontr)
      assume "p \<notin> region c (tolerance st) (x, y)"
      with ch[OF p(1), of 3] have "channel c' p 3 = channel c p 3" by simp
      with p(2,3) show False by simp
    qed
  next
    fix p
    assume r: "p \<in> region c (tolerance st) (x, y)"
    from sub[OF r] have p: "inBounds (width c) (height c) p" "0 < uint (channel c p 3)"
      by (simp_all add: similar_def)
    from ch[OF p(1), of 3] r have "channel c' p 3 = 0" by simp
    with p show "p \<in> {p. inBounds (width c) (height c) p \<and> 0 < uint (channel c p 3) \<and>
               channel c' p 3 = 0}" by simp
  qed
  moreover have "similar c (tolerance st) (x, y) (x, y)"
    using assms(3,4) by (simp add: similar_def)
  then have "(x, y) \<in> region c (tolerance st) (x, y)"
    unfolding region_def by (rule reach_seed)
  ultimately show ?thesis using cv by blast
qed

theorem fill_erases_exactly_the_region_witness:
  "canvas stripeEditor = Some stripeBuffer \<and> wellFormed stripeBuffer \<and>
   inBounds (width stripeBuffer) (height stripeBuffer) (0, 0) \<and>
   0 < uint (channel stripeBuffer (0, 0) 3) \<and>
   (\<exists>c'. canvas (floodFill 0 0 stripeEditor) = Some c' \<and> width c' = width stripeBuffer \<and>
           height c' = height stripeBuffer \<and>
           {p. inBounds (width stripeBuffer) (height stripeBuffer) p \<and>
               0 < uint (channel stripeBuffer p 3) \<and> channel c' p 3 = 0}
             = region stripeBuffer (tolerance stripeEditor) (0, 0) \<and>
           (0, 0) \<in> region stripeBuffer (tolerance stripeEditor) (0, 0))"
proof -
  have c: "canvas stripeEditor = Some stripeBuffer" by (simp add: stripeEditor_def)
  have w: "wellFormed stripeBuffer" by (simp add: wellFormed_def stripeBuffer_def)
  have b: "inBounds (width stripeBuffer) (height stripeBuffer) (0, 0)"
    by (simp add: inBounds_def stripeBuffer_def)
  have a: "0 < uint (channel stripeBuffer (0, 0) 3)"
    by (simp add: channel_def pixelPos_def stripeBuffer_def)
  from fill_erases_exactly_the_region[OF c w b a] c w b a show ?thesis by blast
qed

text \<open>
  C5: a fill from any seed keeps the size of the buffer, and every pixel outside the
  region keeps all four bytes on the canvas; so does every pixel that is not similar to
  the seed, such as one of a colour outside the tolerance. For a pixel of the region the
  loop sets the alpha byte to 0 and leaves red, green and blue as they are in the
  \<open>ImageData\<close> that it hands to \<open>putImageData\<close>; the canvas, which keeps its colours
  premultiplied by alpha, reads 0, 0, 0, 0 for that pixel afterwards. So the colour bytes
  of an erased pixel are not unchanged on the canvas: in the example the first pixel is
  100, 100, 100, 255 before the fill and 0, 0, 0, 0 after it.
\<close>

theorem fill_keeps_frame_and_clears_region:
  assumes "canvas st = Some c" and "wellFormed c"
  shows "\<exists>c'. canvas (floodFill x y st) = Some c' \<and> width c' = width c \<and>
           height c' = height c \<and> length (data c') = length (data c) \<and>
           (\<forall>p. inBounds (width c) (height c) p \<and> p \<notin> region c (tolerance st) (x, y) \<longrightarrow>
              channel c' p 0 = channel c p 0 \<and> channel c' p 1 = channel c p 1 \<and>
              channel c' p 2 = channel c p 2 \<and> channel c' p 3 = channel c p 3) \<and>
           (\<forall>p. inBounds (width c) (height c) p \<and> \<not> similar c (tolerance st) (x, y) p \<longrightarrow>
              channel c' p 0 = channel c p 0 \<and> channel c' p 1 = channel c p 1 \<and>
              channel c' p 2 = channel c p 2 \<and> channel c' p 3 = channel c p 3) \<and>
           (\<forall>p. p \<in> region c (tolerance st) (x, y) \<longrightarrow>
              channel (c\<lparr>data := floodFillData (width c) (height c) (tolerance st) (data c) x y\<rparr>)
                  p 0 = channel c p 0 \<and>
              channel (c\<lparr>data := floodFillData (width c) (height c) (tolerance st) (data c) x y\<rparr>)
                  p 1 = channel c p 1 \<and>
              channel (c\<lparr>data := floodFillData (width c) (height c) (tolerance st) (data c) x y\<rparr>)
                  p 2 = channel c p 2 \<and>
              channel (c\<lparr>data := floodFillData (width c) (height c) (tolerance st) (data c) x y\<rparr>)
                  p 3 = 0 \<and>
              channel c' p 0 = 0 \<and> channel c' p 1 = 0 \<and> channel c' p 2 = 0 \<and>
              channel c' p 3 = 0)"
proof -
  let ?w = "c\<lparr>data := floodFillData (width c) (height c) (tolerance st) (data c) x y\<rparr>"
  from floodFill_canvas[OF assms] obtain c' where
    cv: "canvas (floodFill x y st) = Some c'" "width c' = width c" "height c' = height c"
      "length (data c') = length (data c)"
    and ch: "\<And>p k. inBounds (width c) (height c) p \<Longrightarrow> k < 4 \<Longrightarrow>
              channel c' p k =
                (if p \<in> region c (tolerance st) (x, y) then 0 else channel c p k)"
    by blast
  have sub: "p \<in> region c (tolerance st) (x, y) \<Longrightarrow> similar c (tolerance st) (x, y) p" for p
    unfolding region_def by (rule reach_ok)
  have 1: "channel c' p 0 = channel c p 0 \<and> channel c' p 1 = channel c p 1 \<and>
           channel c' p 2 = channel c p 2 \<and> channel c' p 3 = channel c p 3"
    if "inBounds (width c) (height c) p" "p \<notin> region c (tolerance st) (x, y)" for p
    using ch[OF that(1), of 0] ch[OF that(1), of 1] ch[OF that(1), of 2] ch[OF that(1), of 3]
      that(2) by simp
  have 2: "channel c' p 0 = channel c p 0 \<and> channel c' p 1 = channel c p 1 \<and>
           channel c' p 2 = channel c p 2 \<and> channel c' p 3 = channel c p 3"
    if "inBounds (width c) (height c) p" "\<not> similar c (tolerance st) (x, y) p" for p
    using 1[OF that(1)] sub[of p] that(2) by blast
  have wr: "channel ?w p k = (if k = 3 then 0 else channel c p k)"
    if "p \<in> region c (tolerance st) (x, y)" "k < 4" for p k
    using written_channels(1)[OF assms(2) region_alpha(1)[OF that(1)] that(2),
        of "tolerance st" x y] that(1)
    by (simp add: channel_def)
  have 3: "channel ?w p 0 = channel c p 0 \<and> channel ?w p 1 = channel c p 1 \<and>
           channel ?w p 2 = channel c p 2 \<and> channel ?w p 3 = 0 \<and>
           channel c' p 0 = 0 \<and> channel c' p 1 = 0 \<and> channel c' p 2 = 0 \<and>
           channel c' p 3 = 0"
    if r: "p \<in> region c (tolerance st) (x, y)" for p
  proof -
    note i = region_alpha(1)[OF r]
    from wr[OF r, of 0] wr[OF r, of 1] wr[OF r, of 2] wr[OF r, of 3]
      ch[OF i, of 0] ch[OF i, of 1] ch[OF i, of 2] ch[OF i, of 3] r
    show ?thesis by simp
  qed
  from cv 1 2 3 show ?thesis by blast
qed

theorem fill_keeps_frame_and_clears_region_witness:
  "canvas stripeEditor = Some stripeBuffer \<and> wellFormed stripeBuffer \<and>
   (0, 0) \<in> region stripeBuffer (tolerance stripeEditor) (0, 0) \<and>
   canvas (floodFill 0 0 stripeEditor) =
     Some \<lparr>width = 3, height = 1, data = [0, 0, 0, 0, 0, 0, 0, 0, 200, 0, 0, 255]\<rparr> \<and>
   (\<exists>c'. canvas (floodFill 0 0 stripeEditor) = Some c' \<and> width c' = width stripeBuffer \<and>
           height c' = height stripeBuffer \<and> length (data c') = length (data stripeBuffer) \<and>
           (\<forall>p. inBounds (width stripeBuffer) (height stripeBuffer) p \<and>
                p \<notin> region stripeBuffer (tolerance stripeEditor) (0, 0) \<longrightarrow>
              channel c' p 0 = channel stripeBuffer p 0 \<and>
              channel c' p 1 = channel stripeBuffer p 1 \<and>
              channel c' p 2 = channel stripeBuffer p 2 \<and>
              channel c' p 3 = channel stripeBuffer p 3) \<and>
           (\<forall>p. inBounds (width stripeBuffer) (height stripeBuffer) p \<and>
                \<not> similar stripeBuffer (tolerance stripeEditor) (0, 0) p \<longrightarrow>
              channel c' p 0 = channel stripeBuffer p 0 \<and>
              channel c' p 1 = channel stripeBuffer p 1 \<and>
              channel c' p 2 = channel stripeBuffer p 2 \<and>
              channel c' p 3 = channel stripeBuffer p 3) \<and>
           (\<forall>p. p \<in> region stripeBuffer (tolerance stripeEditor) (0, 0) \<longrightarrow>
              channel (stripeBuffer\<lparr>data := floodFillData (width stripeBuffer)
                  (height stripeBuffer) (tolerance stripeEditor) (data stripeBuffer) 0 0\<rparr>)
                  p 0 = channel stripeBuffer p 0 \<and>
              channel (stripeBuffer\<lparr>data := floodFillData (width stripeBuffer)
                  (height stripeBuffer) (tolerance stripeEditor) (data stripeBuffer) 0 0\<rparr>)
                  p 1 = channel stripeBuffer p 1 \<and>
              channel (stripeBuffer\<lparr>data := floodFillData (width stripeBuffer)
                  (height stripeBuffer) (tolerance stripeEditor) (data stripeBuffer) 0 0\<rparr>)
                  p 2 = channel stripeBuffer p 2 \<and>
              channel (stripeBuffer\<lparr>data := floodFillData (width stripeBuffer)
                  (height stripeBuffer) (tolerance stripeEditor) (data stripeBuffer) 0 0\<rparr>)
                  p 3 = 0 \<and>
              channel c' p 0 = 0 \<and> channel c' p 1 = 0 \<and> channel c' p 2 = 0 \<and>
              channel c' p 3 = 0))"
proof -
  have c: "canvas stripeEditor = Some stripeBuffer" by (simp add: stripeEditor_def)
  have w: "wellFormed stripeBuffer" by (simp add: wellFormed_def stripeBuffer_def)
  have t: "tolerance stripeEditor = 30" by (simp add: stripeEditor_def)
  have r: "(0, 0) \<in> region stripeBuffer (tolerance stripeEditor) (0, 0)"
    by (simp only: t stripe_seed_in_region)
  from fill_keeps_frame_and_clears_region[OF c w, of 0 0] c w r floodFill_stripe_example
  show ?thesis by blast
qed

theorem fill_region_colours_counterexample:
  "canvas stripeEditor = Some stripeBuffer \<and>
   (0, 0) \<in> region stripeBuffer (tolerance stripeEditor) (0, 0) \<and>
   floodFillData 3 1 30 (data stripeBuffer) 0 0 =
     [100, 100, 100, 0, 110, 110, 110, 0, 200, 0, 0, 255] \<and>
   canvas (floodFill 0 0 stripeEditor) =
     Some \<lparr>width = 3, height = 1, data = [0, 0, 0, 0, 0, 0, 0, 0, 200, 0, 0, 255]\<rparr> \<and>
   channel \<lparr>width = 3, height = 1, data = [0, 0, 0, 0, 0, 0, 0, 0, 200, 0, 0, 255]\<rparr> (0, 0) 0
     = 0 \<and>
   channel stripeBuffer (0, 0) 0 = 100"
proof -
  have c: "canvas stripeEditor = Some stripeBuffer" by (simp add: stripeEditor_def)
  have t: "tolerance stripeEditor = 30" by (simp add: stripeEditor_def)
  have r: "(0, 0) \<in> region stripeBuffer (tolerance stripeEditor) (0, 0)"
    by (simp only: t stripe_seed_in_region)
  have a: "channel \<lparr>width = 3, height = 1, data = [0, 0, 0, 0, 0, 0, 0, 0, 200, 0, 0, 255]\<rparr>
             (0, 0) 0 = 0"
    "channel stripeBuffer (0, 0) 0 = 100"
    by (simp_all add: channel_def pixelPos_def stripeBuffer_def)
  from c r stripe_written_example floodFill_stripe_example a show ?thesis by simp
qed

subsection \<open>The number of iterations\<close>

lemma count_update:
  "i < length V \<Longrightarrow> \<not> V ! i \<Longrightarrow>
   length (filter (\<lambda>b. b) (V[i := True])) = Suc (length (filter (\<lambda>b. b) V))"
proof (induction V arbitrary: i)
  case Nil
  then show ?case by simp
next
  case (Cons a V)
  then show ?case by (cases i) auto
qed

lemma floodLoop_count:
  "length V = w * h \<Longrightarrow> floodLoop w h tol target d V stack n = (d', V', n') \<Longrightarrow>
   length V' = w * h \<and>
   n' + 4 * length (filter (\<lambda>b. b) V) = n + length stack + 4 * length (filter (\<lambda>b. b) V')"
proof (induction w h tol target d V stack n rule: floodLoop.induct)
  case (1 w h tol target d visited n)
  then show ?case by (simp add: floodLoop.simps)
next
  case (2 w h tol target d visited x y stack n)
  show ?case
  proof (cases "x < 0 \<or> int w \<le> x \<or> y < 0 \<or> int h \<le> y")
    case True
    have "floodLoop w h tol target d visited ((x, y) # stack) n =
          floodLoop w h tol target d visited stack (Suc n)"
      using True by (subst floodLoop.simps) (simp add: Let_def)
    with "2.prems"(2) have "floodLoop w h tol target d visited stack (Suc n) = (d', V', n')"
      by simp
    with "2.IH"(1)[OF refl True "2.prems"(1)] show ?thesis by simp
  next
    case False
    then have inb: "inBounds w h (x, y)" by (auto simp: inBounds_def)
    show ?thesis
    proof (cases "isSet visited (y * int w + x)")
      case True
      have "floodLoop w h tol target d visited ((x, y) # stack) n =
            floodLoop w h tol target d visited stack (Suc n)"
        using False True by (subst floodLoop.simps) (simp add: Let_def)
      with "2.prems"(2) have "floodLoop w h tol target d visited stack (Suc n) = (d', V', n')"
        by simp
      with "2.IH"(2)[OF refl False True "2.prems"(1)] show ?thesis by simp
    next
      case unset: False
      show ?thesis
      proof (cases "matches d target tol ((y * int w + x) * 4)")
        case nomatch: False
        have "floodLoop w h tol target d visited ((x, y) # stack) n =
              floodLoop w h tol target d visited stack (Suc n)"
          using False unset nomatch by (subst floodLoop.simps) (simp add: Let_def)
        with "2.prems"(2) have "floodLoop w h tol target d visited stack (Suc n) = (d', V', n')"
          by simp
        with "2.IH"(3)[OF refl False unset refl nomatch "2.prems"(1)] show ?thesis by simp
      next
        case True
        have nn: "\<not> \<not> matches d target tol ((y * int w + x) * 4)" using True by simp
        from pixelPos_range[OF inb] have r: "0 \<le> y * int w + x"
          "nat (y * int w + x) < length visited"
          using "2.prems"(1) by (simp_all add: pixelPos_def nat_less_iff)
        with unset have nv: "\<not> visited ! nat (y * int w + x)"
          by (simp add: isSet_def)
        have cnt: "length (filter (\<lambda>b. b) (visited[nat (y * int w + x) := True])) =
                   Suc (length (filter (\<lambda>b. b) visited))"
          using r(2) nv by (rule count_update)
        have len: "length (visited[nat (y * int w + x) := True]) = w * h"
          using "2.prems"(1) by simp
        have "floodLoop w h tol target d visited ((x, y) # stack) n =
              floodLoop w h tol target (d[nat ((y * int w + x) * 4 + 3) := 0])
                (visited[nat (y * int w + x) := True])
                ((x, y - 1) # (x, y + 1) # (x - 1, y) # (x + 1, y) # stack) (Suc n)"
          using False unset True by (subst floodLoop.simps) (simp add: Let_def)
        with "2.prems"(2) have
          "floodLoop w h tol target (d[nat ((y * int w + x) * 4 + 3) := 0])
                (visited[nat (y * int w + x) := True])
                ((x, y - 1) # (x, y + 1) # (x - 1, y) # (x + 1, y) # stack) (Suc n) = (d', V', n')"
          by simp
        with "2.IH"(4)[OF refl False unset refl nn len] show ?thesis by (simp add: cnt)
      qed
    qed
  qed
qed

text \<open>
  C10: the loop of \<open>floodFill\<close> returns, for every buffer, seed, target colour and
  tolerance. Each iteration pops one entry; the seed is pushed once and four entries are
  pushed for each pixel that is marked, and a pixel is marked only while its entry of
  \<open>visited\<close> is unset. So the loop runs once for the seed and four times for each
  marked pixel, at most \<open>1 + 4 * width * height\<close> times.
\<close>

theorem flood_loop_terminates_within_bound:
  "\<exists>d' V' n. floodLoop w h tol target d (replicate (w * h) False) [(x, y)] 0 = (d', V', n) \<and>
     length V' = w * h \<and>
     n = 1 + 4 * length (filter (\<lambda>b. b) V') \<and>
     n \<le> 1 + 4 * (w * h)"
proof -
  obtain d' V' n where r: "floodLoop w h tol target d (replicate (w * h) False) [(x, y)] 0 = (d', V', n)"
    using prod_cases3 by blast
  have "length (replicate (w * h) False) = w * h" by simp
  from floodLoop_count[OF this r]
  have l: "length V' = w * h" and c: "n = 1 + 4 * length (filter (\<lambda>b. b) V')" by simp_all
  have "length (filter (\<lambda>b. b) V') \<le> length V'" by (rule length_filter_le)
  with l c have "n \<le> 1 + 4 * (w * h)" by simp
  with r l c show ?thesis by blast
qed

theorem flood_loop_terminates_within_bound_witness:
  "\<exists>d' V' n. floodLoop 3 1 30 (Some 100, Some 100, Some 100) (data stripeBuffer)
      (replicate (3 * 1) False) [(0, 0)] 0 = (d', V', n) \<and>
     length V' = 3 * 1 \<and>
     n = 1 + 4 * length (filter (\<lambda>b. b) V') \<and>
     n \<le> 1 + 4 * (3 * 1)"
  by (rule flood_loop_terminates_within_bound)

end
